theory Spec2Isabelle
  imports Main "HOL-Library.AList"
begin

section \<open>Python values used by \<^verbatim>\<open>gerrychain/partition/partition.py\<close>\<close>

text \<open>
  A Python \<^verbatim>\<open>dict\<close> keeps its keys in insertion order and never holds a key twice.
  It is modelled as an association list; \<open>is_dict\<close> is the "no key twice" condition.
  Reading a key is \<open>map_of\<close>; the assignment \<^verbatim>\<open>d[k] = v\<close> is \<open>AList.update\<close>, which
  overwrites an existing key in place and appends a new key at the end, as Python does.
  Python's \<^verbatim>\<open>set\<close> and \<^verbatim>\<open>frozenset\<close> are HOL sets.
\<close>

type_synonym ('k, 'v) dict = "('k \<times> 'v) list"

definition is_dict :: "('k, 'v) dict \<Rightarrow> bool" where
  "is_dict d = distinct (map fst d)"

definition keys :: "('k, 'v) dict \<Rightarrow> 'k set" where
  "keys d = fst ` set d"

text \<open>Reading \<^verbatim>\<open>d[k]\<close> from a \<^verbatim>\<open>collections.defaultdict\<close>: a missing key reads as the default.\<close>

definition defaultdict_get :: "('k, 'v) dict \<Rightarrow> 'v \<Rightarrow> 'k \<Rightarrow> 'v" where
  "defaultdict_get d dflt k = (case map_of d k of None \<Rightarrow> dflt | Some v \<Rightarrow> v)"

text \<open>
  The exceptions the module can raise. \<^verbatim>\<open>KeyError\<close> carries the missing key, which is a
  node (raised by \<^verbatim>\<open>Assignment.__getitem__\<close>), a part label (raised by reading
  \<^verbatim>\<open>self.parts[part]\<close>) or an updater name (raised by reading \<^verbatim>\<open>self.updaters[key]\<close>).
  \<^verbatim>\<open>RecursionError\<close> is what Python raises when calls nest deeper than its limit.
\<close>

datatype ('n, 'p) error =
    KeyError_node 'n
  | KeyError_part 'p
  | KeyError_name string
  | TypeError string
  | AttributeError
  | RecursionError

fun is_KeyError :: "('n, 'p) error \<Rightarrow> bool" where
  "is_KeyError (KeyError_node _) = True"
| "is_KeyError (KeyError_part _) = True"
| "is_KeyError (KeyError_name _) = True"
| "is_KeyError _ = False"

section \<open>\<^verbatim>\<open>level_sets\<close>\<close>

text \<open>
  \<^verbatim>\<open>
  def level_sets(mapping: dict):
      sets = collections.defaultdict(set)
      for source, target in mapping.items():
          sets[target].add(source)
      return sets
  \<close>
  The argument of \<open>level_sets\<close> is the list \<^verbatim>\<open>mapping.items()\<close>.
\<close>

fun level_sets_loop :: "('s \<times> 't) list \<Rightarrow> ('t, 's set) dict \<Rightarrow> ('t, 's set) dict" where
  "level_sets_loop [] sets = sets"
| "level_sets_loop ((source, target) # rest) sets =
     level_sets_loop rest
       (AList.update target (insert source (defaultdict_get sets {} target)) sets)"

definition level_sets :: "('s \<times> 't) list \<Rightarrow> ('t, 's set) dict" where
  "level_sets mapping = level_sets_loop mapping []"

section \<open>\<^verbatim>\<open>class Assignment\<close>\<close>

text \<open>
  \<^verbatim>\<open>
  def __init__(self, parts):
      self.parts = parts
  \<close>
  The constructor stores the mapping it is given, whatever its class. Two classes occur in
  this module: the plain \<^verbatim>\<open>dict\<close> that \<^verbatim>\<open>from_dict\<close> builds, for which reading a missing key
  raises \<^verbatim>\<open>KeyError\<close>, and the \<^verbatim>\<open>collections.defaultdict(set)\<close> that \<^verbatim>\<open>level_sets\<close> returns, for
  which reading a missing key inserts an empty set and returns it. \<open>parts\<close> holds the
  items of \<^verbatim>\<open>self.parts\<close> and \<open>parts_class\<close> its class; mappings of other classes are not
  modelled.
\<close>

datatype mapping_class = PlainDict | DefaultDictOfSet

datatype ('n, 'p) Assignment =
  Assignment (parts: "('p, 'n set) dict") (parts_class: mapping_class)

text \<open>
  \<^verbatim>\<open>
  def from_dict(cls, assignment: dict):
      parts = {
          part: frozenset(nodes) for part, nodes in level_sets(assignment).items()
      }
      return cls(parts)
  \<close>
  The dict comprehension builds a plain dict.
\<close>

definition from_dict :: "('n, 'p) dict \<Rightarrow> ('n, 'p) Assignment" where
  "from_dict assignment =
     Assignment (map (\<lambda>(part, nodes). (part, nodes)) (level_sets assignment)) PlainDict"

text \<open>
  \<^verbatim>\<open>
  def __getitem__(self, node):
      for part, nodes in self.parts.items():
          if node in nodes:
              return part
      raise KeyError(node)
  \<close>
\<close>

fun getitem_loop :: "('p, 'n set) dict \<Rightarrow> 'n \<Rightarrow> ('n, 'p) error + 'p" where
  "getitem_loop [] node = Inl (KeyError_node node)"
| "getitem_loop ((part, nodes) # rest) node =
     (if node \<in> nodes then Inr part else getitem_loop rest node)"

definition Assignment_getitem :: "('n, 'p) Assignment \<Rightarrow> 'n \<Rightarrow> ('n, 'p) error + 'p" where
  "Assignment_getitem self node = getitem_loop (parts self) node"

text \<open>\<^verbatim>\<open>return Assignment(self.parts.copy())\<close>: the method \<^verbatim>\<open>copy\<close> of a dict and of a
  defaultdict returns a mapping of the same class with the same items; the sets are values
  here (the store model below keeps their identity).\<close>

definition copy :: "('n, 'p) Assignment \<Rightarrow> ('n, 'p) Assignment" where
  "copy self = Assignment (parts self) (parts_class self)"

text \<open>
  \<^verbatim>\<open>
  def update_parts(self, new_parts):
      for part, nodes in new_parts.items():
          self.parts[part] = frozenset(nodes)
  \<close>
\<close>

fun update_parts_loop :: "('p, 'n set) dict \<Rightarrow> ('p, 'n set) dict \<Rightarrow> ('p, 'n set) dict" where
  "update_parts_loop [] ps = ps"
| "update_parts_loop ((part, nodes) # rest) ps = update_parts_loop rest (AList.update part nodes ps)"

definition update_parts :: "('n, 'p) Assignment \<Rightarrow> ('p, 'n set) dict \<Rightarrow> ('n, 'p) Assignment" where
  "update_parts self new_parts =
     Assignment (update_parts_loop new_parts (parts self)) (parts_class self)"

section \<open>Flows\<close>

text \<open>A flow record \<^verbatim>\<open>{"in": set(), "out": set()}\<close>.\<close>

record 'n flow =
  flow_in :: "'n set"
  flow_out :: "'n set"

definition create_flow :: "'n flow" where
  "create_flow = \<lparr>flow_in = {}, flow_out = {}\<rparr>"

text \<open>
  Modelled from the spec: \<^verbatim>\<open>flows_from_changes\<close> is imported from \<^verbatim>\<open>gerrychain.updaters\<close>,
  which is not among the sources. The specification (4.2, \<^verbatim>\<open>deriveFlow\<close>) says: for every
  node in the delta whose new part differs from \<^verbatim>\<open>old_assignment.partOf(node)\<close>, the old
  part gains the node in its "out" set and the new part gains it in its "in" set; nodes
  mapped to their current part are excluded; parts with no change are absent. The part of
  a node is read with \<open>Assignment_getitem\<close>, whose \<^verbatim>\<open>KeyError\<close> propagates.
\<close>

fun flows_from_changes_loop ::
  "('n, 'p) Assignment \<Rightarrow> ('n, 'p) dict \<Rightarrow> ('p, 'n flow) dict \<Rightarrow> ('n, 'p) error + ('p, 'n flow) dict"
where
  "flows_from_changes_loop old_assignment [] flows = Inr flows"
| "flows_from_changes_loop old_assignment ((node, target) # rest) flows =
     (case Assignment_getitem old_assignment node of
        Inl e \<Rightarrow> Inl e
      | Inr source \<Rightarrow>
          if source \<noteq> target then
            let src = defaultdict_get flows create_flow source;
                flows1 = AList.update source (src\<lparr>flow_out := insert node (flow_out src)\<rparr>) flows;
                tgt = defaultdict_get flows1 create_flow target;
                flows2 = AList.update target (tgt\<lparr>flow_in := insert node (flow_in tgt)\<rparr>) flows1
            in flows_from_changes_loop old_assignment rest flows2
          else flows_from_changes_loop old_assignment rest flows)"

definition flows_from_changes ::
  "('n, 'p) Assignment \<Rightarrow> ('n, 'p) dict \<Rightarrow> ('n, 'p) error + ('p, 'n flow) dict"
where
  "flows_from_changes old_assignment flips = flows_from_changes_loop old_assignment flips []"

text \<open>
  \<^verbatim>\<open>
  def update(self, mapping: dict):
      flows = flows_from_changes(self, mapping)
      for part, flow in flows.items():
          self.parts[part] = (self.parts[part] - flow["out"]) | flow["in"]
  \<close>
  \<open>apply_flows\<close> is the \<^verbatim>\<open>for\<close> loop. The read \<^verbatim>\<open>self.parts[part]\<close> of a part that is not a
  key raises \<^verbatim>\<open>KeyError\<close> when \<^verbatim>\<open>self.parts\<close> is a plain dict; when it is a
  \<^verbatim>\<open>defaultdict(set)\<close> the read inserts the part with an empty set, and the assignment
  then stores the new set under it. \<open>update\<close> returns the mutated object.
\<close>

fun apply_flows ::
  "mapping_class \<Rightarrow> ('p, 'n set) dict \<Rightarrow> ('p, 'n flow) dict \<Rightarrow> ('n, 'p) error + ('p, 'n set) dict"
where
  "apply_flows cls ps [] = Inr ps"
| "apply_flows cls ps ((part, flow) # rest) =
     (case map_of ps part of
        None \<Rightarrow>
          (case cls of
             PlainDict \<Rightarrow> Inl (KeyError_part part)
           | DefaultDictOfSet \<Rightarrow>
               (let ps1 = AList.update part {} ps
                in apply_flows cls
                     (AList.update part (({} - flow_out flow) \<union> flow_in flow) ps1) rest))
      | Some old \<Rightarrow>
          apply_flows cls (AList.update part ((old - flow_out flow) \<union> flow_in flow) ps) rest)"

definition update :: "('n, 'p) Assignment \<Rightarrow> ('n, 'p) dict \<Rightarrow> ('n, 'p) error + ('n, 'p) Assignment" where
  "update self mapping =
     (case flows_from_changes self mapping of
        Inl e \<Rightarrow> Inl e
      | Inr flows \<Rightarrow>
          (case apply_flows (parts_class self) (parts self) flows of
             Inl e \<Rightarrow> Inl e
           | Inr ps \<Rightarrow> Inr (Assignment ps (parts_class self))))"

text \<open>
  \<^verbatim>\<open>
  def items(self):
      for part, nodes in self.parts.items():
          for node in nodes:
              yield (node, part)
  \<close>
  Python iterates a set in an order of its own; the model lists each set in increasing
  order. \<open>level_sets_items\<close> below shows that the one use of \<open>items\<close> in this module does
  not depend on that order.
\<close>

definition items :: "('n::linorder, 'p) Assignment \<Rightarrow> ('n \<times> 'p) list" where
  "items self =
     concat (map (\<lambda>(part, nodes). map (\<lambda>node. (node, part)) (sorted_list_of_set nodes)) (parts self))"

section \<open>The graph and the arguments of the constructor\<close>

text \<open>
  Modelled from the spec: \<^verbatim>\<open>gerrychain.graph.Graph\<close> is not among the sources. The
  specification (6, graph collaborator) says it exposes a node set, an edge set (pairs of
  node ids) and per-node attribute lookup; \<^verbatim>\<open>graph.node_attribute(key)\<close> is taken as a field
  that returns the node-to-value dict or raises.
\<close>

record ('n, 'p) Graph =
  nodes :: "'n list"
  edges :: "('n \<times> 'n) list"
  node_attribute :: "string \<Rightarrow> ('n, 'p) error + ('n, 'p) dict"

text \<open>
  The \<^verbatim>\<open>assignment\<close> argument is dynamically typed; \<^verbatim>\<open>get_assignment\<close> dispatches on
  \<^verbatim>\<open>isinstance\<close>. \<open>Other\<close> stands for every value that is neither a \<^verbatim>\<open>str\<close>, a \<^verbatim>\<open>dict\<close>
  nor an \<^verbatim>\<open>Assignment\<close>, \<^verbatim>\<open>None\<close> included.
\<close>

datatype pyother = PyNone | PyInt int | PyList "pyother list"

datatype ('n, 'p) assignment_arg =
    Str string
  | Dict "('n, 'p) dict"
  | AssignmentObj "('n, 'p) Assignment"
  | Other pyother

definition get_assignment ::
  "('n, 'p) assignment_arg \<Rightarrow> ('n, 'p) Graph option \<Rightarrow> ('n, 'p) error + ('n, 'p) Assignment"
where
  "get_assignment assignment graph =
     (case assignment of
        Str key \<Rightarrow>
          (case graph of
             None \<Rightarrow> Inl AttributeError
           | Some g \<Rightarrow>
               (case node_attribute g key of
                  Inl e \<Rightarrow> Inl e
                | Inr d \<Rightarrow> Inr (from_dict d)))
      | Dict d \<Rightarrow> Inr (from_dict d)
      | AssignmentObj a \<Rightarrow> Inr a
      | Other _ \<Rightarrow> Inl (TypeError ''Assignment must be a dict or a node attribute key''))"

section \<open>\<^verbatim>\<open>class Partition\<close>\<close>

text \<open>
  The attribute \<^verbatim>\<open>parts\<close> of a Partition holds the dict returned by \<^verbatim>\<open>level_sets\<close> while a
  root runs its updaters, and the tuple of its keys afterwards (line 79); a child takes
  its parent's value (line 106).
\<close>

datatype ('n, 'p) parts_value =
    PartsDict "('p, 'n set) dict"
  | PartsTuple "'p list"

text \<open>
  The attributes of an instance. An updater is a function of the instance, and a HOL
  datatype cannot hold functions of itself, so the attributes an updater can read
  (\<open>pstate\<close>) are kept apart from the registry \<^verbatim>\<open>updaters\<close>; the parent link of a
  \<open>pstate\<close> is the parent's \<open>pstate\<close> (the parent's registry is the child's own, line 107).
  \<open>invocations\<close> is not an attribute of the source: it logs, in order, the names whose
  updater function was called on this instance.
\<close>

datatype ('n, 'p, 'ef, 'v) pstate = PState
  (graph: "('n, 'p) Graph option")
  (assignment: "('n, 'p) Assignment")
  (parent: "('n, 'p, 'ef, 'v) pstate option")
  (flips: "('n, 'p) dict option")
  (flows: "('p, 'n flow) dict option")
  (edge_flows: "'ef option")
  (partition_parts: "('n, 'p) parts_value")
  (cache: "(string, 'v) dict")

type_synonym ('n, 'p, 'ef, 'v) updater = "('n, 'p, 'ef, 'v) pstate \<Rightarrow> ('n, 'p) error + 'v"

datatype ('n, 'p, 'ef, 'v) Partition = Partition
  (state: "('n, 'p, 'ef, 'v) pstate")
  (updaters: "(string, ('n, 'p, 'ef, 'v) updater) dict")
  (invocations: "string list")

definition set_cache :: "('n, 'p, 'ef, 'v) pstate \<Rightarrow> (string, 'v) dict \<Rightarrow> ('n, 'p, 'ef, 'v) pstate" where
  "set_cache s c =
     PState (graph s) (assignment s) (parent s) (flips s) (flows s) (edge_flows s) (partition_parts s) c"

definition set_edge_flows :: "('n, 'p, 'ef, 'v) pstate \<Rightarrow> 'ef option \<Rightarrow> ('n, 'p, 'ef, 'v) pstate" where
  "set_edge_flows s ef =
     PState (graph s) (assignment s) (parent s) (flips s) (flows s) ef (partition_parts s) (cache s)"

definition set_parts :: "('n, 'p, 'ef, 'v) pstate \<Rightarrow> ('n, 'p) parts_value \<Rightarrow> ('n, 'p, 'ef, 'v) pstate" where
  "set_parts s ps =
     PState (graph s) (assignment s) (parent s) (flips s) (flows s) (edge_flows s) ps (cache s)"

text \<open>\<^verbatim>\<open>default_updaters = {}\<close>, and \<^verbatim>\<open>d.update(other)\<close> of a dict.\<close>

definition default_updaters :: "(string, ('n, 'p, 'ef, 'v) updater) dict" where
  "default_updaters = []"

definition dict_update :: "('k, 'v) dict \<Rightarrow> ('k, 'v) dict \<Rightarrow> ('k, 'v) dict" where
  "dict_update d other = fold (\<lambda>(k, v). AList.update k v) other d"

text \<open>
  \<^verbatim>\<open>
  def _first_time(self, graph, assignment, updaters):
      self.graph = graph
      self.assignment = get_assignment(assignment, graph)
      if updaters is None:
          updaters = dict()
      self.updaters = self.default_updaters.copy()
      self.updaters.update(updaters)
      self.parent = None
      self.flips = None
      self.flows = None
      self.edge_flows = None
      self.parts = level_sets(self.assignment)
  \<close>
\<close>

definition first_time ::
  "('n::linorder, 'p) Graph option \<Rightarrow> ('n, 'p) assignment_arg \<Rightarrow>
   (string, ('n, 'p, 'ef, 'v) updater) dict option \<Rightarrow> ('n, 'p) error + ('n, 'p, 'ef, 'v) Partition"
where
  "first_time graph_arg assignment_arg updaters_arg =
     (case get_assignment assignment_arg graph_arg of
        Inl e \<Rightarrow> Inl e
      | Inr a \<Rightarrow>
          Inr (Partition
                 (PState graph_arg a None None None None (PartsDict (level_sets (items a))) [])
                 (dict_update default_updaters (case updaters_arg of None \<Rightarrow> [] | Some u \<Rightarrow> u))
                 []))"

text \<open>
  \<^verbatim>\<open>
  def _from_parent(self, parent, flips):
      self.parent = parent
      self.flips = flips
      self.assignment = parent.assignment.copy()
      self.assignment.update(flips)
      self.graph = parent.graph
      self.parts = parent.parts
      self.updaters = parent.updaters
      self.flows = flows_from_changes(parent.assignment, flips)
      self.edge_flows = compute_edge_flows(self)
  \<close>
  \<^verbatim>\<open>compute_edge_flows\<close> is imported from \<^verbatim>\<open>gerrychain.updaters\<close>, which is not among the
  sources, and the specification does not fix the shape of its result; it is the
  parameter \<open>cef\<close>, which reads the instance built so far and returns a value or raises.
  With \<^verbatim>\<open>flips=None\<close> the derivation of the flows reads \<^verbatim>\<open>None.items()\<close>.
\<close>

definition from_parent ::
  "(('n, 'p, 'ef, 'v) pstate \<Rightarrow> ('n, 'p) error + 'ef) \<Rightarrow> ('n, 'p, 'ef, 'v) Partition \<Rightarrow>
   ('n, 'p) dict option \<Rightarrow> ('n, 'p) error + ('n, 'p, 'ef, 'v) Partition"
where
  "from_parent cef parent_partition flips_arg =
     (case flips_arg of
        None \<Rightarrow> Inl AttributeError
      | Some fl \<Rightarrow>
          (case update (copy (assignment (state parent_partition))) fl of
             Inl e \<Rightarrow> Inl e
           | Inr a \<Rightarrow>
               (case flows_from_changes (assignment (state parent_partition)) fl of
                  Inl e \<Rightarrow> Inl e
                | Inr fw \<Rightarrow>
                    (let self0 = PState (graph (state parent_partition)) a
                                   (Some (state parent_partition)) (Some fl) (Some fw) None
                                   (partition_parts (state parent_partition)) []
                     in case cef self0 of
                          Inl e \<Rightarrow> Inl e
                        | Inr ef \<Rightarrow>
                            Inr (Partition (set_edge_flows self0 (Some ef))
                                   (updaters parent_partition) [])))))"

text \<open>
  \<^verbatim>\<open>
  def _update(self):
      self._cache = dict()
      for key in self.updaters:
          if key not in self._cache:
              self._cache[key] = self.updaters[key](self)
  \<close>
\<close>

fun Partition_update_loop ::
  "string list \<Rightarrow> ('n, 'p, 'ef, 'v) Partition \<Rightarrow> ('n, 'p) error + ('n, 'p, 'ef, 'v) Partition"
where
  "Partition_update_loop [] self = Inr self"
| "Partition_update_loop (key # rest) self =
     (if key \<notin> keys (cache (state self)) then
        (case map_of (updaters self) key of
           None \<Rightarrow> Inl (KeyError_name key)
         | Some f \<Rightarrow>
             (case f (state self) of
                Inl e \<Rightarrow> Inl e
              | Inr v \<Rightarrow>
                  Partition_update_loop rest
                    (Partition (set_cache (state self) (AList.update key v (cache (state self))))
                       (updaters self) (invocations self @ [key]))))
      else Partition_update_loop rest self)"

definition Partition_update ::
  "('n, 'p, 'ef, 'v) Partition \<Rightarrow> ('n, 'p) error + ('n, 'p, 'ef, 'v) Partition"
where
  "Partition_update self =
     Partition_update_loop (map fst (updaters self))
       (Partition (set_cache (state self) []) (updaters self) (invocations self))"

text \<open>\<^verbatim>\<open>__len__\<close> returns \<^verbatim>\<open>len(self.parts)\<close>. The class defines no \<^verbatim>\<open>__bool__\<close>, so the test
  \<^verbatim>\<open>if parent:\<close> holds when the parent is not \<^verbatim>\<open>None\<close> and its length is not zero.\<close>

definition Partition_len :: "('n, 'p, 'ef, 'v) Partition \<Rightarrow> nat" where
  "Partition_len self =
     (case partition_parts (state self) of PartsDict d \<Rightarrow> length d | PartsTuple t \<Rightarrow> length t)"

definition truthy :: "('n, 'p, 'ef, 'v) Partition option \<Rightarrow> bool" where
  "truthy p = (case p of None \<Rightarrow> False | Some q \<Rightarrow> Partition_len q \<noteq> 0)"

text \<open>
  \<^verbatim>\<open>
  def __init__(self, graph=None, assignment=None, updaters=None, parent=None, flips=None):
      if parent:
          self._from_parent(parent, flips)
          self._update()
      else:
          self._first_time(graph, assignment, updaters)
          self._update()
          self.parts = tuple(self.parts.keys())
  \<close>
\<close>

definition Partition_init ::
  "(('n::linorder, 'p, 'ef, 'v) pstate \<Rightarrow> ('n, 'p) error + 'ef) \<Rightarrow>
   ('n, 'p) Graph option \<Rightarrow> ('n, 'p) assignment_arg \<Rightarrow>
   (string, ('n, 'p, 'ef, 'v) updater) dict option \<Rightarrow>
   ('n, 'p, 'ef, 'v) Partition option \<Rightarrow> ('n, 'p) dict option \<Rightarrow>
   ('n, 'p) error + ('n, 'p, 'ef, 'v) Partition"
where
  "Partition_init cef graph_arg assignment_arg updaters_arg parent_arg flips_arg =
     (case (if truthy parent_arg then parent_arg else None) of
        Some p \<Rightarrow>
          (case from_parent cef p flips_arg of
             Inl e \<Rightarrow> Inl e
           | Inr self \<Rightarrow> Partition_update self)
      | None \<Rightarrow>
          (case first_time graph_arg assignment_arg updaters_arg of
             Inl e \<Rightarrow> Inl e
           | Inr self \<Rightarrow>
               (case Partition_update self of
                  Inl e \<Rightarrow> Inl e
                | Inr self' \<Rightarrow>
                    (case partition_parts (state self') of
                       PartsDict d \<Rightarrow>
                         Inr (Partition (set_parts (state self') (PartsTuple (map fst d)))
                                (updaters self') (invocations self'))
                     | PartsTuple _ \<Rightarrow> Inl AttributeError))))"

text \<open>\<^verbatim>\<open>merge\<close> is \<^verbatim>\<open>self.__class__(parent=self, flips=flips)\<close>: the other arguments take
  their default \<^verbatim>\<open>None\<close>.\<close>

definition merge ::
  "(('n::linorder, 'p, 'ef, 'v) pstate \<Rightarrow> ('n, 'p) error + 'ef) \<Rightarrow>
   ('n, 'p, 'ef, 'v) Partition \<Rightarrow> ('n, 'p) dict \<Rightarrow> ('n, 'p) error + ('n, 'p, 'ef, 'v) Partition"
where
  "merge cef self flips_arg = Partition_init cef None (Other PyNone) None (Some self) (Some flips_arg)"

text \<open>\<^verbatim>\<open>return self.assignment[edge[0]] != self.assignment[edge[1]]\<close>\<close>

definition crosses_parts ::
  "('n, 'p, 'ef, 'v) Partition \<Rightarrow> 'n \<times> 'n \<Rightarrow> ('n, 'p) error + bool"
where
  "crosses_parts self edge =
     (case Assignment_getitem (assignment (state self)) (fst edge) of
        Inl e \<Rightarrow> Inl e
      | Inr a \<Rightarrow>
          (case Assignment_getitem (assignment (state self)) (snd edge) of
             Inl e \<Rightarrow> Inl e
           | Inr b \<Rightarrow> Inr (a \<noteq> b)))"

text \<open>
  \<^verbatim>\<open>
  def __getitem__(self, key):
      if key not in self._cache:
          self._cache[key] = self.updaters[key](self)
      return self._cache[key]
  \<close>
  The method may write the cache, so the model returns the value and the instance.
\<close>

definition Partition_getitem ::
  "('n, 'p, 'ef, 'v) Partition \<Rightarrow> string \<Rightarrow> ('n, 'p) error + ('v \<times> ('n, 'p, 'ef, 'v) Partition)"
where
  "Partition_getitem self key =
     (case map_of (cache (state self)) key of
        None \<Rightarrow>
          (case map_of (updaters self) key of
             None \<Rightarrow> Inl (KeyError_name key)
           | Some f \<Rightarrow>
               (case f (state self) of
                  Inl e \<Rightarrow> Inl e
                | Inr v \<Rightarrow>
                    Inr (v, Partition (set_cache (state self) (AList.update key v (cache (state self))))
                              (updaters self) (invocations self @ [key]))))
      | Some v \<Rightarrow> Inr (v, self))"

section \<open>The Assignment in a store\<close>

text \<open>
  \<^verbatim>\<open>copy\<close> shares the frozensets of the parent with the child, so what \<^verbatim>\<open>update\<close> does
  to the parent depends on object identity. This second model of \<^verbatim>\<open>copy\<close> and \<^verbatim>\<open>update\<close>
  keeps the objects in a store: a set object is an address with its contents, a
  \<^verbatim>\<open>parts\<close> mapping is an address with its class and its entries, each entry holding the
  address of a set object, and an address is allocated when it is below \<open>lim\<close>. An Assignment object is
  identified with the address of its \<^verbatim>\<open>parts\<close> dict, which no method reassigns.
  \<open>store_update_refines\<close> relates this model to \<open>update\<close>.
\<close>

record ('n, 'p) store =
  frozensets :: "nat \<Rightarrow> 'n set"
  dicts :: "nat \<Rightarrow> ('p, nat) dict"
  dict_class :: "nat \<Rightarrow> mapping_class"
  lim :: nat

datatype assignment_ref = AssignmentRef (parts_ref: nat)

text \<open>The value of an Assignment object in a store.\<close>

definition store_parts :: "('n, 'p) store \<Rightarrow> assignment_ref \<Rightarrow> ('p, 'n set) dict" where
  "store_parts st a = map (\<lambda>(part, r). (part, frozensets st r)) (dicts st (parts_ref a))"

definition store_assignment :: "('n, 'p) store \<Rightarrow> assignment_ref \<Rightarrow> ('n, 'p) Assignment" where
  "store_assignment st a = Assignment (store_parts st a) (dict_class st (parts_ref a))"

text \<open>The dict of an Assignment and the sets it refers to are allocated.\<close>

definition store_wf :: "('n, 'p) store \<Rightarrow> assignment_ref \<Rightarrow> bool" where
  "store_wf st a = (parts_ref a < lim st \<and> list_all (\<lambda>(part, r). r < lim st) (dicts st (parts_ref a)))"

text \<open>\<^verbatim>\<open>return Assignment(self.parts.copy())\<close>: a new mapping of the same class with the
  same entries.\<close>

definition store_copy :: "('n, 'p) store \<Rightarrow> assignment_ref \<Rightarrow> assignment_ref \<times> ('n, 'p) store" where
  "store_copy st self =
     (AssignmentRef (lim st),
      st\<lparr>dicts := (dicts st)(lim st := dicts st (parts_ref self)),
         dict_class := (dict_class st)(lim st := dict_class st (parts_ref self)),
         lim := lim st + 1\<rparr>)"

text \<open>
  \<^verbatim>\<open>self.parts[part] = (self.parts[part] - flow["out"]) | flow["in"]\<close>: the result of the
  set operators is a new object, and the entry of \<^verbatim>\<open>self.parts\<close> is set to it. For a part
  that is not a key, a plain dict raises; a \<^verbatim>\<open>defaultdict(set)\<close> first allocates an empty set
  and enters it under the part. An exception leaves the store as the loop has changed it
  so far.
\<close>

definition store_set_item ::
  "('n, 'p) store \<Rightarrow> assignment_ref \<Rightarrow> 'p \<Rightarrow> 'n set \<Rightarrow> ('n, 'p) store"
where
  "store_set_item st self part new_set =
     st\<lparr>frozensets := (frozensets st)(lim st := new_set),
        dicts := (dicts st)(parts_ref self := AList.update part (lim st) (dicts st (parts_ref self))),
        lim := lim st + 1\<rparr>"

fun store_apply_flows ::
  "('n, 'p) store \<Rightarrow> assignment_ref \<Rightarrow> ('p, 'n flow) dict \<Rightarrow> ('n, 'p) error option \<times> ('n, 'p) store"
where
  "store_apply_flows st self [] = (None, st)"
| "store_apply_flows st self ((part, flow) # rest) =
     (case map_of (dicts st (parts_ref self)) part of
        None \<Rightarrow>
          (case dict_class st (parts_ref self) of
             PlainDict \<Rightarrow> (Some (KeyError_part part), st)
           | DefaultDictOfSet \<Rightarrow>
               (let st1 = store_set_item st self part {}
                in store_apply_flows
                     (store_set_item st1 self part (({} - flow_out flow) \<union> flow_in flow))
                     self rest))
      | Some r \<Rightarrow>
          store_apply_flows
            (store_set_item st self part ((frozensets st r - flow_out flow) \<union> flow_in flow))
            self rest)"

definition store_update ::
  "('n, 'p) store \<Rightarrow> assignment_ref \<Rightarrow> ('n, 'p) dict \<Rightarrow> ('n, 'p) error option \<times> ('n, 'p) store"
where
  "store_update st self mapping =
     (case flows_from_changes (store_assignment st self) mapping of
        Inl e \<Rightarrow> (Some e, st)
      | Inr fws \<Rightarrow> store_apply_flows st self fws)"

text \<open>
  The two statements of \<^verbatim>\<open>_from_parent\<close> that build the child's Assignment:
  \<^verbatim>\<open>self.assignment = parent.assignment.copy()\<close> and \<^verbatim>\<open>self.assignment.update(flips)\<close>.
\<close>

definition store_from_parent ::
  "('n, 'p) store \<Rightarrow> assignment_ref \<Rightarrow> ('n, 'p) dict \<Rightarrow>
   assignment_ref \<times> ('n, 'p) error option \<times> ('n, 'p) store"
where
  "store_from_parent st parent_assignment fl =
     (let (self_assignment, st1) = store_copy st parent_assignment;
          (r, st2) = store_update st1 self_assignment fl
      in (self_assignment, r, st2))"

section \<open>Updaters that look up other entries\<close>

text \<open>
  An updater is called with the instance, so while \<^verbatim>\<open>_update\<close> or \<^verbatim>\<open>__getitem__\<close> runs it, it
  can read another entry with \<^verbatim>\<open>partition[name]\<close>, and that lookup runs the updater of
  \<^verbatim>\<open>name\<close> when the cache has no entry yet. A function from the instance to a result cannot
  say this, so this second model of \<^verbatim>\<open>_update\<close> and \<^verbatim>\<open>__getitem__\<close> takes an updater as a
  function from the instance to a sequence of lookups: \<open>Return r\<close> returns a value or
  raises, and \<open>Getitem name k\<close> evaluates \<^verbatim>\<open>partition[name]\<close> and goes on as \<open>k r\<close> with
  its outcome \<open>r\<close>, the value it returns or the exception it raises, which the updater
  may catch. \<open>propagating\<close> says that an updater has no handler: an exception of a lookup
  ends it. The instance an updater receives carries the cache as it is when the call
  begins, so an updater can also depend on which entries \<^verbatim>\<open>_cache\<close> has.
  \<open>Partition_update_reentrant_refines\<close> relates this model to \<open>Partition_update\<close>.
\<close>

datatype ('n, 'p, 'v) lookups =
    Return "('n, 'p) error + 'v"
  | Getitem string "('n, 'p) error + 'v \<Rightarrow> ('n, 'p, 'v) lookups"

primrec propagating :: "('n, 'p, 'v) lookups \<Rightarrow> bool" where
  "propagating (Return r) = True"
| "propagating (Getitem name k) =
     ((\<forall>e. k (Inl e) = Return (Inl e)) \<and> (\<forall>v. propagating (k (Inr v))))"

type_synonym ('n, 'p, 'ef, 'v) reentrant_updater =
  "('n, 'p, 'ef, 'v) pstate \<Rightarrow> ('n, 'p, 'v) lookups"

text \<open>What the calls change: the dict \<^verbatim>\<open>_cache\<close>, and the log of the names whose updater
  function was called, in the order of the calls.\<close>

record 'v memo =
  memo_cache :: "(string, 'v) dict"
  memo_invocations :: "string list"

text \<open>Running the body of an updater, with \<open>look\<close> for \<^verbatim>\<open>partition[...]\<close>.\<close>

primrec run_updater ::
  "(string \<Rightarrow> 'v memo \<Rightarrow> (('n, 'p) error + 'v) \<times> 'v memo) \<Rightarrow> ('n, 'p, 'v) lookups \<Rightarrow>
   'v memo \<Rightarrow> (('n, 'p) error + 'v) \<times> 'v memo"
where
  "run_updater look (Return r) st = (r, st)"
| "run_updater look (Getitem name k) st =
     (case look name st of (r, st') \<Rightarrow> run_updater look (k r) st')"

text \<open>
  The statement \<^verbatim>\<open>self._cache[key] = self.updaters[key](self)\<close>, which \<^verbatim>\<open>_update\<close> and
  \<^verbatim>\<open>__getitem__\<close> share: the read of \<^verbatim>\<open>self.updaters[key]\<close> raises for a name that is not
  registered; the call is logged; when it returns, its value is stored in the cache as
  the call has left it.
\<close>

definition call_updater ::
  "(string \<Rightarrow> 'v memo \<Rightarrow> (('n, 'p) error + 'v) \<times> 'v memo) \<Rightarrow>
   (string, ('n, 'p, 'ef, 'v) reentrant_updater) dict \<Rightarrow> ('n, 'p, 'ef, 'v) pstate \<Rightarrow>
   string \<Rightarrow> 'v memo \<Rightarrow> (('n, 'p) error + 'v) \<times> 'v memo"
where
  "call_updater look ups s key st =
     (case map_of ups key of
        None \<Rightarrow> (Inl (KeyError_name key), st)
      | Some f \<Rightarrow>
          (case run_updater look (f (set_cache s (memo_cache st)))
                  (st\<lparr>memo_invocations := memo_invocations st @ [key]\<rparr>) of
             (Inl e, st') \<Rightarrow> (Inl e, st')
           | (Inr v, st') \<Rightarrow> (Inr v, st'\<lparr>memo_cache := AList.update key v (memo_cache st')\<rparr>)))"

text \<open>
  \<^verbatim>\<open>
  def __getitem__(self, key):
      if key not in self._cache:
          self._cache[key] = self.updaters[key](self)
      return self._cache[key]
  \<close>
  A lookup inside an updater nests a call inside a call. The first argument bounds the
  nesting that is left: Python raises \<^verbatim>\<open>RecursionError\<close> when its limit is reached, and so
  updaters that wait for one another in a circle end with an exception.
\<close>

primrec Partition_getitem_reentrant ::
  "nat \<Rightarrow> (string, ('n, 'p, 'ef, 'v) reentrant_updater) dict \<Rightarrow> ('n, 'p, 'ef, 'v) pstate \<Rightarrow>
   string \<Rightarrow> 'v memo \<Rightarrow> (('n, 'p) error + 'v) \<times> 'v memo"
where
  "Partition_getitem_reentrant 0 ups s key st = (Inl RecursionError, st)"
| "Partition_getitem_reentrant (Suc depth) ups s key st =
     (case map_of (memo_cache st) key of
        Some v \<Rightarrow> (Inr v, st)
      | None \<Rightarrow> call_updater (Partition_getitem_reentrant depth ups s) ups s key st)"

text \<open>
  \<^verbatim>\<open>
  def _update(self):
      self._cache = dict()
      for key in self.updaters:
          if key not in self._cache:
              self._cache[key] = self.updaters[key](self)
  \<close>
  An exception ends the loop and the constructor, and no instance is returned.
\<close>

fun Partition_update_reentrant_loop ::
  "nat \<Rightarrow> (string, ('n, 'p, 'ef, 'v) reentrant_updater) dict \<Rightarrow> ('n, 'p, 'ef, 'v) pstate \<Rightarrow>
   string list \<Rightarrow> 'v memo \<Rightarrow> ('n, 'p) error + 'v memo"
where
  "Partition_update_reentrant_loop depth ups s [] st = Inr st"
| "Partition_update_reentrant_loop depth ups s (key # rest) st =
     (if key \<notin> keys (memo_cache st) then
        (case call_updater (Partition_getitem_reentrant depth ups s) ups s key st of
           (Inl e, st') \<Rightarrow> Inl e
         | (Inr v, st') \<Rightarrow> Partition_update_reentrant_loop depth ups s rest st')
      else Partition_update_reentrant_loop depth ups s rest st)"

definition Partition_update_reentrant ::
  "nat \<Rightarrow> (string, ('n, 'p, 'ef, 'v) reentrant_updater) dict \<Rightarrow> ('n, 'p, 'ef, 'v) pstate \<Rightarrow>
   ('n, 'p) error + 'v memo"
where
  "Partition_update_reentrant depth ups s =
     Partition_update_reentrant_loop depth ups s (map fst ups)
       \<lparr>memo_cache = [], memo_invocations = []\<rparr>"

section \<open>Definitions used to state the properties\<close>

text \<open>The invariant of an Assignment: \<^verbatim>\<open>parts\<close> is a dict whose node sets are pairwise
  disjoint.\<close>

fun pairwise_disjoint :: "'a set list \<Rightarrow> bool" where
  "pairwise_disjoint [] = True"
| "pairwise_disjoint (s # ss) = ((\<forall>t \<in> set ss. s \<inter> t = {}) \<and> pairwise_disjoint ss)"

definition disjoint_parts :: "('p, 'n set) dict \<Rightarrow> bool" where
  "disjoint_parts ps = (is_dict ps \<and> pairwise_disjoint (map snd ps))"

text \<open>Abbreviations for the proofs about flows: the flow record read from the defaultdict,
  one recorded move, the nodes that enter and leave a part, membership of a node in a
  part, and the part a node has after a delta.\<close>

definition dg :: "('p, 'n flow) dict \<Rightarrow> 'p \<Rightarrow> 'n flow" where
  "dg fws p = defaultdict_get fws create_flow p"

definition add_move :: "'n \<Rightarrow> 'p \<Rightarrow> 'p \<Rightarrow> ('p, 'n flow) dict \<Rightarrow> ('p, 'n flow) dict" where
  "add_move node source target fws =
     (let src = defaultdict_get fws create_flow source;
          flows1 = AList.update source (src\<lparr>flow_out := insert node (flow_out src)\<rparr>) fws;
          tgt = defaultdict_get flows1 create_flow target
      in AList.update target (tgt\<lparr>flow_in := insert node (flow_in tgt)\<rparr>) flows1)"

definition in_nodes :: "('n, 'p) Assignment \<Rightarrow> ('n, 'p) dict \<Rightarrow> 'p \<Rightarrow> 'n set" where
  "in_nodes a D p = {n. \<exists>s. (n, p) \<in> set D \<and> Assignment_getitem a n = Inr s \<and> s \<noteq> p}"

definition out_nodes :: "('n, 'p) Assignment \<Rightarrow> ('n, 'p) dict \<Rightarrow> 'p \<Rightarrow> 'n set" where
  "out_nodes a D p = {n. \<exists>t. (n, t) \<in> set D \<and> Assignment_getitem a n = Inr p \<and> p \<noteq> t}"

definition member_of :: "('p, 'n set) dict \<Rightarrow> 'n \<Rightarrow> 'p \<Rightarrow> bool" where
  "member_of ps n p = (\<exists>s. map_of ps p = Some s \<and> n \<in> s)"

definition new_part :: "('n, 'p) Assignment \<Rightarrow> ('n, 'p) dict \<Rightarrow> 'n \<Rightarrow> ('n, 'p) error + 'p" where
  "new_part a D n = (case map_of D n of Some t \<Rightarrow> Inr t | None \<Rightarrow> Assignment_getitem a n)"

text \<open>A driver that applies a list of deltas with \<open>merge\<close>, one after the other.\<close>

fun merge_chain ::
  "(('n::linorder, 'p, 'ef, 'v) pstate \<Rightarrow> ('n, 'p) error + 'ef) \<Rightarrow>
   ('n, 'p, 'ef, 'v) Partition \<Rightarrow> ('n, 'p) dict list \<Rightarrow> ('n, 'p) error + ('n, 'p, 'ef, 'v) Partition"
where
  "merge_chain cef p [] = Inr p"
| "merge_chain cef p (d # ds) =
     (case merge cef p d of Inl e \<Rightarrow> Inl e | Inr q \<Rightarrow> merge_chain cef q ds)"

text \<open>The scenario of the specification: nodes 1 to 4 on a path, parts A and B. The graph
  carries no node attributes, and \<open>no_edge_flows\<close> stands for an edge-flow computation
  that returns an empty result.\<close>

definition scenario_graph :: "(int, string) Graph" where
  "scenario_graph =
     \<lparr>nodes = [1, 2, 3, 4], edges = [(1, 2), (2, 3), (3, 4)],
      node_attribute = (\<lambda>key. Inl (KeyError_name key))\<rparr>"

definition scenario_assignment :: "(int, string) dict" where
  "scenario_assignment = [(1, ''A''), (2, ''A''), (3, ''B''), (4, ''B'')]"

definition no_edge_flows :: "(int, string, unit, 'v) pstate \<Rightarrow> (int, string) error + unit" where
  "no_edge_flows self = Inr ()"

text \<open>The root partition of the scenario, built without updaters, and its child under the
  delta \<^verbatim>\<open>{2: "B"}\<close>; \<open>scenario_root_init\<close> and \<open>scenario_child_merge\<close> show that the
  constructor and \<open>merge\<close> return them.\<close>

definition scenario_root :: "(int, string, unit, unit) Partition" where
  "scenario_root = Partition
     (PState (Some scenario_graph) (Assignment [(''A'', {2, 1}), (''B'', {4, 3})] PlainDict) None None None None
        (PartsTuple [''A'', ''B'']) []) [] []"

definition scenario_child :: "(int, string, unit, unit) Partition" where
  "scenario_child = Partition
     (PState (Some scenario_graph) (Assignment [(''A'', {1}), (''B'', {2, 3, 4})] PlainDict)
        (Some (state scenario_root)) (Some [(2, ''B'')])
        (Some [(''A'', \<lparr>flow_in = {}, flow_out = {2}\<rparr>), (''B'', \<lparr>flow_in = {2}, flow_out = {}\<rparr>)])
        (Some ()) (PartsTuple [''A'', ''B'']) []) [] []"

text \<open>
  The updater of the specification's second scenario,
  \<^verbatim>\<open>size = lambda p: {part: len(nodes) for part, nodes in p.parts.items()}\<close>: it reads the
  Partition attribute \<^verbatim>\<open>parts\<close>, and a tuple has no method \<^verbatim>\<open>items\<close>. \<open>assignment_size\<close> is
  the same computation over \<^verbatim>\<open>p.assignment.parts\<close>.
\<close>

definition parts_size :: "('n, 'p, 'ef, ('p, nat) dict) updater" where
  "parts_size p =
     (case partition_parts p of
        PartsDict d \<Rightarrow> Inr (map (\<lambda>(part, nodes). (part, card nodes)) d)
      | PartsTuple t \<Rightarrow> Inl AttributeError)"

definition assignment_size :: "('n, 'p, 'ef, ('p, nat) dict) updater" where
  "assignment_size p = Inr (map (\<lambda>(part, nodes). (part, card nodes)) (parts (assignment p)))"

definition parts_size_root :: "(int, string, unit, (string, nat) dict) Partition" where
  "parts_size_root = Partition
     (PState (Some scenario_graph) (Assignment [(''A'', {2, 1}), (''B'', {4, 3})] PlainDict) None None None None
        (PartsTuple [''A'', ''B'']) [(''size'', [(''A'', 2), (''B'', 2)])])
     [(''size'', parts_size)] [''size'']"

definition assignment_size_root :: "(int, string, unit, (string, nat) dict) Partition" where
  "assignment_size_root = Partition
     (PState (Some scenario_graph) (Assignment [(''A'', {2, 1}), (''B'', {4, 3})] PlainDict) None None None None
        (PartsTuple [''A'', ''B'']) [(''size'', [(''A'', 2), (''B'', 2)])])
     [(''size'', assignment_size)] [''size'']"

definition assignment_size_child :: "(int, string, unit, (string, nat) dict) Partition" where
  "assignment_size_child = Partition
     (PState (Some scenario_graph) (Assignment [(''A'', {1}), (''B'', {2, 3, 4})] PlainDict)
        (Some (state assignment_size_root)) (Some [(2, ''B'')])
        (Some [(''A'', \<lparr>flow_in = {}, flow_out = {2}\<rparr>), (''B'', \<lparr>flow_in = {2}, flow_out = {}\<rparr>)])
        (Some ()) (PartsTuple [''A'', ''B'']) [(''size'', [(''A'', 1), (''B'', 3)])])
     [(''size'', assignment_size)] [''size'']"

text \<open>The entries of \<^verbatim>\<open>parts\<close> whose node set contains a node: the partition invariant says
  there is exactly one for every node of the graph.\<close>

definition containing_parts :: "('p, 'n set) dict \<Rightarrow> 'n \<Rightarrow> ('p, 'n set) dict" where
  "containing_parts ps n = filter (\<lambda>(part, nodes). n \<in> nodes) ps"

text \<open>
  The words of the specification for the from-scratch side of the equivalence: the
  node-to-part mapping of an Assignment, and "the full resulting node-to-part mapping",
  which is that mapping overridden by the delta.
\<close>

definition assignment_mapping :: "('n, 'p) Assignment \<Rightarrow> 'n \<rightharpoonup> 'p" where
  "assignment_mapping a n = (case Assignment_getitem a n of Inl e \<Rightarrow> None | Inr p \<Rightarrow> Some p)"

definition spec_full_mapping :: "('n, 'p) Assignment \<Rightarrow> ('n, 'p) dict \<Rightarrow> 'n \<rightharpoonup> 'p" where
  "spec_full_mapping a delta = assignment_mapping a ++ map_of delta"

text \<open>The invariant carried along a chain of merges: the part sets are pairwise disjoint
  and cover the node set \<open>N\<close>, and the graph is \<open>g\<close>.\<close>

definition partition_ok ::
  "('n, 'p, 'ef, 'v) Partition \<Rightarrow> 'n set \<Rightarrow> ('n, 'p) Graph option \<Rightarrow> bool"
where
  "partition_ok P N g =
     (disjoint_parts (parts (assignment (state P))) \<and>
      N \<subseteq> \<Union> (snd ` set (parts (assignment (state P)))) \<and>
      graph (state P) = g)"

text \<open>A store that holds the Assignment of the scenario's root: the sets of A and B at the
  addresses 0 and 1, the \<^verbatim>\<open>parts\<close> dict, a plain dict, at address 2.\<close>

definition scenario_store :: "(int, string) store" where
  "scenario_store =
     \<lparr>frozensets = (\<lambda>r. if r = 0 then {2, 1} else if r = 1 then {4, 3} else {}),
      dicts = (\<lambda>r. if r = 2 then [(''A'', 0), (''B'', 1)] else []),
      dict_class = (\<lambda>r. PlainDict),
      lim = 3\<rparr>"

text \<open>The root built over a graph without nodes from the empty dict: it has no parts.\<close>

definition empty_graph :: "(int, string) Graph" where
  "empty_graph = \<lparr>nodes = [], edges = [], node_attribute = (\<lambda>key. Inl (KeyError_name key))\<rparr>"

definition empty_root :: "(int, string, unit, unit) Partition" where
  "empty_root = Partition
     (PState (Some empty_graph) (Assignment [] PlainDict) None None None None (PartsTuple []) []) [] []"

text \<open>A root built from an Assignment object whose node sets overlap, node 1 being in the
  parts A and B, and its child under the delta \<^verbatim>\<open>{1: "C"}\<close>; \<open>overlap_root_init\<close> and
  \<open>overlap_child_merge\<close> show that the constructor and \<open>merge\<close> return them.\<close>

definition overlap_graph :: "(int, string) Graph" where
  "overlap_graph =
     \<lparr>nodes = [1, 2], edges = [(1, 2)], node_attribute = (\<lambda>key. Inl (KeyError_name key))\<rparr>"

definition overlap_assignment :: "(int, string) Assignment" where
  "overlap_assignment = Assignment [(''A'', {1}), (''B'', {1}), (''C'', {2})] PlainDict"

definition overlap_root :: "(int, string, unit, unit) Partition" where
  "overlap_root = Partition
     (PState (Some overlap_graph) overlap_assignment None None None None
        (PartsTuple [''A'', ''B'', ''C'']) []) [] []"

definition overlap_child :: "(int, string, unit, unit) Partition" where
  "overlap_child = Partition
     (PState (Some overlap_graph) (Assignment [(''A'', {}), (''B'', {1}), (''C'', {1, 2})] PlainDict)
        (Some (state overlap_root)) (Some [(1, ''C'')])
        (Some [(''A'', \<lparr>flow_in = {}, flow_out = {1}\<rparr>), (''C'', \<lparr>flow_in = {1}, flow_out = {}\<rparr>)])
        (Some ()) (PartsTuple [''A'', ''B'', ''C'']) []) [] []"

text \<open>
  What an updater returns when every lookup it makes is answered by \<open>val\<close>, and the value
  of a registered name computed without a cache, with lookups nested at most \<open>depth\<close>
  deep. An updater that does not read the cache behaves the same for every content of
  \<^verbatim>\<open>_cache\<close>; \<open>without_handlers\<close> says that no updater of the registry catches the
  exception of a lookup.
\<close>

primrec eval_lookups ::
  "(string \<Rightarrow> ('n, 'p) error + 'v) \<Rightarrow> ('n, 'p, 'v) lookups \<Rightarrow> ('n, 'p) error + 'v"
where
  "eval_lookups val (Return r) = r"
| "eval_lookups val (Getitem name k) = eval_lookups val (k (val name))"

primrec updater_value ::
  "nat \<Rightarrow> (string, ('n, 'p, 'ef, 'v) reentrant_updater) dict \<Rightarrow> ('n, 'p, 'ef, 'v) pstate \<Rightarrow>
   string \<Rightarrow> ('n, 'p) error + 'v"
where
  "updater_value 0 ups s key = Inl RecursionError"
| "updater_value (Suc depth) ups s key =
     (case map_of ups key of
        None \<Rightarrow> Inl (KeyError_name key)
      | Some f \<Rightarrow> eval_lookups (updater_value depth ups s) (f s))"

definition cache_independent ::
  "(string, ('n, 'p, 'ef, 'v) reentrant_updater) dict \<Rightarrow> ('n, 'p, 'ef, 'v) pstate \<Rightarrow> bool"
where
  "cache_independent ups s = (\<forall>(key, f) \<in> set ups. \<forall>c. f (set_cache s c) = f s)"

definition without_handlers ::
  "(string, ('n, 'p, 'ef, 'v) reentrant_updater) dict \<Rightarrow> ('n, 'p, 'ef, 'v) pstate \<Rightarrow> bool"
where
  "without_handlers ups s = (\<forall>(key, f) \<in> set ups. propagating (f s))"

text \<open>
  The invariants of the proof that such updaters are called once. Every entry of the
  cache is the value of its name. A lookup or a call that takes \<open>st\<close> to \<open>st'\<close> appends
  the names \<open>new\<close> to the log and keeps the entries \<open>st\<close> had; when it returns a value,
  \<open>new\<close> has no name twice and none that had an entry, exactly these names get an
  entry, the value is the one \<open>X\<close> gives at some depth, and at every depth at which \<open>X\<close>
  gives a value each name of \<open>new\<close> has one.
\<close>

definition sound_cache ::
  "(string, ('n, 'p, 'ef, 'v) reentrant_updater) dict \<Rightarrow> ('n, 'p, 'ef, 'v) pstate \<Rightarrow>
   (string, 'v) dict \<Rightarrow> bool"
where
  "sound_cache ups s c = (\<forall>k v. map_of c k = Some v \<longrightarrow> (\<exists>n. updater_value n ups s k = Inr v))"

definition accounted ::
  "(string, ('n, 'p, 'ef, 'v) reentrant_updater) dict \<Rightarrow> ('n, 'p, 'ef, 'v) pstate \<Rightarrow>
   (nat \<Rightarrow> ('n, 'p) error + 'v) \<Rightarrow> 'v memo \<Rightarrow> ('n, 'p) error + 'v \<Rightarrow> 'v memo \<Rightarrow> string list \<Rightarrow> bool"
where
  "accounted ups s X st r st' new =
     (sound_cache ups s (memo_cache st') \<and>
      memo_invocations st' = memo_invocations st @ new \<and>
      (\<forall>k \<in> keys (memo_cache st). map_of (memo_cache st') k = map_of (memo_cache st) k) \<and>
      (\<forall>v. r = Inr v \<longrightarrow>
         distinct new \<and> set new \<inter> keys (memo_cache st) = {} \<and>
         keys (memo_cache st') = keys (memo_cache st) \<union> set new \<and>
         set new \<subseteq> keys ups \<and>
         (\<exists>M. X M = Inr v) \<and>
         (\<forall>M w. X M = Inr w \<longrightarrow> (\<forall>k \<in> set new. \<exists>u. updater_value M ups s k = Inr u))))"

definition memo_ok ::
  "(string, ('n, 'p, 'ef, 'v) reentrant_updater) dict \<Rightarrow> ('n, 'p, 'ef, 'v) pstate \<Rightarrow> 'v memo \<Rightarrow> bool"
where
  "memo_ok ups s st =
     (sound_cache ups s (memo_cache st) \<and> distinct (memo_invocations st) \<and>
      set (memo_invocations st) = keys (memo_cache st) \<and> keys (memo_cache st) \<subseteq> keys ups)"

text \<open>
  \<^verbatim>\<open>partition[name]\<close> in an updater that has no handler around it.
\<close>

definition getitem_then ::
  "string \<Rightarrow> ('v \<Rightarrow> ('n, 'p, 'v) lookups) \<Rightarrow> ('n, 'p, 'v) lookups"
where
  "getitem_then name k = Getitem name (\<lambda>r. case r of Inl e \<Rightarrow> Return (Inl e) | Inr v \<Rightarrow> k v)"

text \<open>
  The root of the scenario as \<^verbatim>\<open>_first_time\<close> leaves it, with integer results for the
  updaters, and three registries over it.
  In \<open>dependent_updaters\<close>, \<^verbatim>\<open>total = lambda p: p["count"] + 1\<close> looks up
  \<^verbatim>\<open>count = lambda p: len(p.assignment.parts)\<close>.
  In \<open>peeking_updaters\<close> the updaters wait for one another in a circle that A breaks by
  looking at the cache:
  \<^verbatim>\<open>A = lambda p: 1 if "C" in p._cache else p["B"]\<close>,
  \<^verbatim>\<open>B = lambda p: p["C"] + p["A"] + 10\<close> and \<^verbatim>\<open>C = lambda p: 0\<close>.
  In \<open>catching_updaters\<close> the one updater looks itself up and catches the exception:
  \<^verbatim>\<open>
  def R(p):
      try:
          return p["R"]
      except RecursionError:
          return 0
  \<close>
\<close>

definition scenario_instance :: "(int, string, unit, int) pstate" where
  "scenario_instance =
     PState (Some scenario_graph) (Assignment [(''A'', {2, 1}), (''B'', {4, 3})] PlainDict)
       None None None None (PartsDict [(''A'', {2, 1}), (''B'', {4, 3})]) []"

definition dependent_updaters :: "(string, (int, string, unit, int) reentrant_updater) dict" where
  "dependent_updaters =
     [(''total'', \<lambda>p. getitem_then ''count'' (\<lambda>c. Return (Inr (c + 1)))),
      (''count'', \<lambda>p. Return (Inr (int (length (parts (assignment p))))))]"

definition peeking_updaters :: "(string, (int, string, unit, int) reentrant_updater) dict" where
  "peeking_updaters =
     [(''A'', \<lambda>p. if ''C'' \<in> keys (cache p) then Return (Inr 1)
                 else getitem_then ''B'' (\<lambda>b. Return (Inr b))),
      (''B'', \<lambda>p. getitem_then ''C'' (\<lambda>c. getitem_then ''A'' (\<lambda>a. Return (Inr (c + a + 10))))),
      (''C'', \<lambda>p. Return (Inr 0))]"

definition catching_updaters :: "(string, (int, string, unit, int) reentrant_updater) dict" where
  "catching_updaters =
     [(''R'', \<lambda>p. Getitem ''R''
                 (\<lambda>r. case r of
                    Inl e \<Rightarrow> (if e = RecursionError then Return (Inr 0) else Return (Inl e))
                  | Inr v \<Rightarrow> Return (Inr v)))]"

section \<open>Assignment: lookup, flows and update\<close>

lemma disjoint_parts_alt:
  "disjoint_parts ps = (is_dict ps \<and>
     (\<forall>p q s t. map_of ps p = Some s \<longrightarrow> map_of ps q = Some t \<longrightarrow> p \<noteq> q \<longrightarrow> s \<inter> t = {}))"
proof (induction ps)
  case Nil then show ?case by (simp add: disjoint_parts_def is_dict_def)
next
  case (Cons x ps)
  obtain q0 t0 where x: "x = (q0, t0)" by (cases x)
  show ?case
  proof (cases "is_dict (x # ps)")
    case False then show ?thesis by (simp add: disjoint_parts_def)
  next
    case True
    then have dps: "is_dict ps" and none: "map_of ps q0 = None"
      unfolding x is_dict_def by (auto simp: map_of_eq_None_iff)
    have mem: "\<And>p s. (map_of ps p = Some s) = ((p, s) \<in> set ps)"
      using dps by (simp add: is_dict_def)
    have ne: "\<And>p s. map_of ps p = Some s \<Longrightarrow> p \<noteq> q0" using none by auto
    let ?R = "\<lambda>ps. \<forall>p q s t. map_of ps p = Some s \<longrightarrow> map_of ps q = Some t \<longrightarrow> p \<noteq> q \<longrightarrow> s \<inter> t = {}"
    have IH: "pairwise_disjoint (map snd ps) = ?R ps"
      using Cons.IH dps by (simp add: disjoint_parts_def)
    have hd: "(\<forall>t \<in> set (map snd ps). t0 \<inter> t = {}) = (\<forall>p s. map_of ps p = Some s \<longrightarrow> t0 \<inter> s = {})"
      unfolding mem by force
    have "?R ((q0, t0) # ps) = ((\<forall>p s. map_of ps p = Some s \<longrightarrow> t0 \<inter> s = {}) \<and> ?R ps)"
    proof
      assume R: "?R ((q0, t0) # ps)"
      have a: "\<forall>p s. map_of ps p = Some s \<longrightarrow> t0 \<inter> s = {}"
      proof (intro allI impI)
        fix p s assume m: "map_of ps p = Some s"
        then have "map_of ((q0, t0) # ps) p = Some s" "q0 \<noteq> p" using ne[OF m] by auto
        moreover have "map_of ((q0, t0) # ps) q0 = Some t0" by simp
        ultimately show "t0 \<inter> s = {}" using R by blast
      qed
      have b: "?R ps"
      proof (intro allI impI)
        fix p q s t assume m: "map_of ps p = Some s" "map_of ps q = Some t" "p \<noteq> q"
        then have "map_of ((q0, t0) # ps) p = Some s" "map_of ((q0, t0) # ps) q = Some t"
          using ne[OF m(1)] ne[OF m(2)] by auto
        with R m(3) show "s \<inter> t = {}" by blast
      qed
      show "(\<forall>p s. map_of ps p = Some s \<longrightarrow> t0 \<inter> s = {}) \<and> ?R ps" using a b by blast
    next
      assume A: "(\<forall>p s. map_of ps p = Some s \<longrightarrow> t0 \<inter> s = {}) \<and> ?R ps"
      show "?R ((q0, t0) # ps)"
      proof (intro allI impI)
        fix p q s t
        assume m: "map_of ((q0, t0) # ps) p = Some s" "map_of ((q0, t0) # ps) q = Some t" "p \<noteq> q"
        show "s \<inter> t = {}"
        proof (cases "p = q0")
          case True
          then have "s = t0" "map_of ps q = Some t" using m by auto
          then show ?thesis using A by blast
        next
          case False
          then have ps: "map_of ps p = Some s" using m by auto
          show ?thesis
          proof (cases "q = q0")
            case True
            then have "t = t0" using m by auto
            then show ?thesis using A ps by blast
          next
            case False
            then have "map_of ps q = Some t" using m by auto
            then show ?thesis using A ps m(3) by blast
          qed
        qed
      qed
    qed
    then show ?thesis using True IH hd unfolding x by (simp add: disjoint_parts_def)
  qed
qed

lemma getitem_loop_Inl: "getitem_loop ps n = Inl e \<Longrightarrow> e = KeyError_node n \<and> (\<forall>(p, s) \<in> set ps. n \<notin> s)"
  by (induction ps) (auto split: if_splits)

lemma getitem_loop_Inr: "getitem_loop ps n = Inr p \<Longrightarrow> \<exists>s. (p, s) \<in> set ps \<and> n \<in> s"
  by (induction ps) (auto split: if_splits)

lemma disjoint_parts_Cons:
  "disjoint_parts ((q, t) # ps) \<Longrightarrow> disjoint_parts ps \<and> map_of ps q = None \<and> (\<forall>p s. map_of ps p = Some s \<longrightarrow> s \<inter> t = {})"
proof -
  assume a: "disjoint_parts ((q, t) # ps)"
  then have nq: "q \<notin> fst ` set ps" and dp: "distinct (map fst ps)"
    by (auto simp: disjoint_parts_alt is_dict_def)
  have none: "map_of ps q = None" using nq by (simp add: map_of_eq_None_iff)
  have r: "\<And>p s. map_of ps p = Some s \<Longrightarrow> map_of ((q, t) # ps) p = Some s \<and> p \<noteq> q"
    using none by auto
  have 1: "\<forall>p s. map_of ps p = Some s \<longrightarrow> s \<inter> t = {}"
  proof (intro allI impI)
    fix p s assume "map_of ps p = Some s"
    from r[OF this] have "map_of ((q, t) # ps) p = Some s" "p \<noteq> q" by auto
    moreover have "map_of ((q, t) # ps) q = Some t" by simp
    ultimately show "s \<inter> t = {}" using a unfolding disjoint_parts_alt by blast
  qed
  have 2: "disjoint_parts ps"
    unfolding disjoint_parts_alt is_dict_def
  proof (intro conjI allI impI)
    show "distinct (map fst ps)" by (rule dp)
  next
    fix p p' s s' assume "map_of ps p = Some s" "map_of ps p' = Some s'" "p \<noteq> p'"
    with r[of p s] r[of p' s'] a show "s \<inter> s' = {}" unfolding disjoint_parts_alt by blast
  qed
  show ?thesis using 1 2 none by blast
qed

lemma getitem_loop_iff:
  "disjoint_parts ps \<Longrightarrow> (getitem_loop ps n = Inr p) = (\<exists>s. map_of ps p = Some s \<and> n \<in> s)"
proof (induction ps)
  case Nil then show ?case by simp
next
  case (Cons x ps)
  obtain q t where x: "x = (q, t)" by (cases x)
  from disjoint_parts_Cons[OF Cons.prems[unfolded x]]
  have d: "disjoint_parts ps" and none: "map_of ps q = None"
    and dis: "\<And>p s. map_of ps p = Some s \<Longrightarrow> s \<inter> t = {}" by auto
  show ?case
  proof (cases "n \<in> t")
    case True
    then show ?thesis using x dis none by auto
  next
    case False
    then show ?thesis using Cons.IH[OF d] x none by auto
  qed
qed

lemma flows_loop_Cons:
  "flows_from_changes_loop a ((node, target) # rest) fws =
     (case Assignment_getitem a node of
        Inl e \<Rightarrow> Inl e
      | Inr source \<Rightarrow>
          if source \<noteq> target then flows_from_changes_loop a rest (add_move node source target fws)
          else flows_from_changes_loop a rest fws)"
  by (cases "Assignment_getitem a node") (simp_all add: add_move_def Let_def)

lemma dg_update: "dg (AList.update k v d) p = (if p = k then v else dg d p)"
  by (simp add: dg_def defaultdict_get_def update_conv')

lemma keys_add_move: "keys (add_move n s t fws) = insert s (insert t (keys fws))"
  by (auto simp: add_move_def Let_def keys_def dom_update)

lemma is_dict_add_move: "is_dict fws \<Longrightarrow> is_dict (add_move n s t fws)"
  by (simp add: add_move_def Let_def is_dict_def distinct_update)

lemma dg_add_move_in:
  "s \<noteq> t \<Longrightarrow> flow_in (dg (add_move n s t fws) p) =
     (if p = t then insert n (flow_in (dg fws p)) else flow_in (dg fws p))"
  by (simp add: add_move_def Let_def dg_update dg_def[symmetric])

lemma dg_add_move_out:
  "s \<noteq> t \<Longrightarrow> flow_out (dg (add_move n s t fws) p) =
     (if p = s then insert n (flow_out (dg fws p)) else flow_out (dg fws p))"
  by (simp add: add_move_def Let_def dg_update dg_def[symmetric])

lemma in_nodes_Nil: "in_nodes a [] p = {}" by (simp add: in_nodes_def)
lemma out_nodes_Nil: "out_nodes a [] p = {}" by (simp add: out_nodes_def)

lemma in_nodes_Cons:
  "in_nodes a ((n, t) # rest) p =
     (if p = t \<and> (\<exists>s. Assignment_getitem a n = Inr s \<and> s \<noteq> t) then insert n (in_nodes a rest p)
      else in_nodes a rest p)"
  by (auto simp: in_nodes_def)

lemma out_nodes_Cons:
  "out_nodes a ((n, t) # rest) p =
     (if Assignment_getitem a n = Inr p \<and> p \<noteq> t then insert n (out_nodes a rest p)
      else out_nodes a rest p)"
  by (auto simp: out_nodes_def)

lemma flows_loop_Inr:
  "flows_from_changes_loop a D fws0 = Inr fws \<Longrightarrow>
     (is_dict fws0 \<longrightarrow> is_dict fws) \<and>
     keys fws = keys fws0 \<union> {p. in_nodes a D p \<noteq> {}} \<union> {p. out_nodes a D p \<noteq> {}} \<and>
     (\<forall>p. flow_in (dg fws p) = flow_in (dg fws0 p) \<union> in_nodes a D p) \<and>
     (\<forall>p. flow_out (dg fws p) = flow_out (dg fws0 p) \<union> out_nodes a D p)"
proof (induction D arbitrary: fws0)
  case Nil
  then show ?case by (simp add: in_nodes_Nil out_nodes_Nil)
next
  case (Cons x rest)
  obtain n t where x: "x = (n, t)" by (cases x)
  from Cons.prems obtain s where s: "Assignment_getitem a n = Inr s"
    unfolding x flows_loop_Cons by (auto split: sum.splits)
  show ?case
  proof (cases "s = t")
    case True
    with Cons.prems s have "flows_from_changes_loop a rest fws0 = Inr fws"
      unfolding x flows_loop_Cons by simp
    from Cons.IH[OF this] show ?thesis
      unfolding x using s True by (simp add: in_nodes_Cons out_nodes_Cons)
  next
    case False
    with Cons.prems s have r: "flows_from_changes_loop a rest (add_move n s t fws0) = Inr fws"
      unfolding x flows_loop_Cons by simp
    note IH = Cons.IH[OF r]
    have 1: "is_dict fws0 \<longrightarrow> is_dict fws" using IH is_dict_add_move[of fws0 n s t] by simp
    have 2: "keys fws = keys fws0 \<union> {p. in_nodes a (x # rest) p \<noteq> {}} \<union> {p. out_nodes a (x # rest) p \<noteq> {}}"
      using IH s False unfolding x by (auto simp: keys_add_move in_nodes_Cons out_nodes_Cons)
    have 3: "\<forall>p. flow_in (dg fws p) = flow_in (dg fws0 p) \<union> in_nodes a (x # rest) p"
      using IH s False unfolding x by (auto simp: dg_add_move_in in_nodes_Cons)
    have 4: "\<forall>p. flow_out (dg fws p) = flow_out (dg fws0 p) \<union> out_nodes a (x # rest) p"
      using IH s False unfolding x by (auto simp: dg_add_move_out out_nodes_Cons)
    show ?thesis using 1 2 3 4 by blast
  qed
qed

lemma flows_loop_Inl:
  "flows_from_changes_loop a D fws0 = Inl e \<Longrightarrow>
     \<exists>n \<in> fst ` set D. e = KeyError_node n \<and> Assignment_getitem a n = Inl (KeyError_node n)"
proof (induction D arbitrary: fws0)
  case Nil then show ?case by simp
next
  case (Cons x rest)
  obtain n t where x: "x = (n, t)" by (cases x)
  show ?case
  proof (cases "Assignment_getitem a n")
    case (Inl e')
    then have "e' = KeyError_node n" using getitem_loop_Inl[of "parts a" n e']
      by (simp add: Assignment_getitem_def)
    with Inl Cons.prems show ?thesis unfolding x flows_loop_Cons by simp
  next
    case (Inr s)
    with Cons.prems have "\<exists>f. flows_from_changes_loop a rest f = Inl e"
      unfolding x flows_loop_Cons by (auto split: if_splits)
    then obtain f where "flows_from_changes_loop a rest f = Inl e" ..
    from Cons.IH[OF this] show ?thesis by auto
  qed
qed

lemma flows_loop_total:
  "\<forall>n \<in> fst ` set D. \<exists>p. Assignment_getitem a n = Inr p \<Longrightarrow>
     \<exists>fws. flows_from_changes_loop a D fws0 = Inr fws"
proof (cases "flows_from_changes_loop a D fws0")
  case (Inl e)
  from flows_loop_Inl[OF this] show "\<forall>n \<in> fst ` set D. \<exists>p. Assignment_getitem a n = Inr p \<Longrightarrow> ?thesis"
    by auto
next
  case (Inr f) then show ?thesis by blast
qed

lemma map_of_keys: "(map_of d k = None) = (k \<notin> keys d)"
  by (simp add: keys_def map_of_eq_None_iff)

lemma defaultdict_get_update:
  "defaultdict_get (AList.update k v d) dflt q = (if q = k then v else defaultdict_get d dflt q)"
  by (simp add: defaultdict_get_def update_conv')

lemma apply_flows_Inl:
  "apply_flows cls ps fws = Inl e \<Longrightarrow>
     cls = PlainDict \<and> (\<exists>q \<in> keys fws. q \<notin> keys ps \<and> e = KeyError_part q)"
proof (induction fws arbitrary: ps)
  case Nil then show ?case by simp
next
  case (Cons x rest)
  obtain p f where x: "x = (p, f)" by (cases x)
  show ?case
  proof (cases "map_of ps p")
    case None
    have pk: "p \<notin> keys ps" using None by (simp add: map_of_keys)
    show ?thesis
    proof (cases cls)
      case PlainDict
      with Cons.prems None have "e = KeyError_part p" unfolding x by simp
      then show ?thesis using pk PlainDict unfolding x by (simp add: keys_def)
    next
      case DefaultDictOfSet
      let ?ps2 = "AList.update p (({} - flow_out f) \<union> flow_in f) (AList.update p {} ps)"
      from Cons.prems None DefaultDictOfSet have "apply_flows cls ?ps2 rest = Inl e"
        unfolding x by (simp add: Let_def)
      from Cons.IH[OF this] DefaultDictOfSet show ?thesis by simp
    qed
  next
    case (Some old)
    let ?ps1 = "AList.update p ((old - flow_out f) \<union> flow_in f) ps"
    from Some Cons.prems have "apply_flows cls ?ps1 rest = Inl e" unfolding x by simp
    from Cons.IH[OF this] obtain q where c: "cls = PlainDict" and q: "q \<in> keys rest" "q \<notin> keys ?ps1"
      "e = KeyError_part q" by blast
    then show ?thesis unfolding x by (auto simp: keys_def dom_update)
  qed
qed

lemma apply_flows_step:
  "apply_flows cls ps ((p, f) # rest) = Inr ps' \<Longrightarrow>
     (cls = PlainDict \<longrightarrow> p \<in> keys ps) \<and>
     apply_flows cls (AList.update p ((defaultdict_get ps {} p - flow_out f) \<union> flow_in f) ps) rest = Inr ps'"
proof (cases "map_of ps p")
  case None
  assume a: "apply_flows cls ps ((p, f) # rest) = Inr ps'"
  show ?thesis
  proof (cases cls)
    case PlainDict
    with a None show ?thesis by simp
  next
    case DefaultDictOfSet
    with a None show ?thesis by (simp add: Let_def defaultdict_get_def)
  qed
next
  case (Some old)
  assume a: "apply_flows cls ps ((p, f) # rest) = Inr ps'"
  have "p \<in> keys ps" using Some map_of_keys[of ps p] by simp
  with a Some show ?thesis by (simp add: defaultdict_get_def)
qed

lemma apply_flows_Inr:
  "apply_flows cls ps fws = Inr ps' \<Longrightarrow> is_dict fws \<Longrightarrow>
     keys ps' = keys ps \<union> keys fws \<and>
     (is_dict ps \<longrightarrow> is_dict ps') \<and>
     (cls = PlainDict \<longrightarrow> keys fws \<subseteq> keys ps \<and> map fst ps' = map fst ps) \<and>
     (\<forall>p. map_of ps' p =
        (case map_of fws p of
           None \<Rightarrow> map_of ps p
         | Some f \<Rightarrow> Some ((defaultdict_get ps {} p - flow_out f) \<union> flow_in f)))"
proof (induction fws arbitrary: ps)
  case Nil then show ?case by (simp add: keys_def)
next
  case (Cons x rest)
  obtain p f where x: "x = (p, f)" by (cases x)
  from Cons.prems(2) have dr: "is_dict rest" and pr: "map_of rest p = None"
    unfolding x is_dict_def by (auto simp: map_of_eq_None_iff)
  let ?X = "(defaultdict_get ps {} p - flow_out f) \<union> flow_in f"
  let ?ps1 = "AList.update p ?X ps"
  from apply_flows_step[OF Cons.prems(1)[unfolded x]]
  have pk: "cls = PlainDict \<longrightarrow> p \<in> keys ps" and r: "apply_flows cls ?ps1 rest = Inr ps'" by simp_all
  note IH = Cons.IH[OF r dr]
  have k1: "keys ?ps1 = insert p (keys ps)" by (simp add: keys_def dom_update)
  have d1: "is_dict ps \<longrightarrow> is_dict ?ps1" by (simp add: is_dict_def distinct_update)
  have m1: "p \<in> keys ps \<longrightarrow> map fst ?ps1 = map fst ps" by (simp add: update_keys keys_def)
  have 1: "keys ps' = keys ps \<union> keys (x # rest)" using IH k1 unfolding x by (auto simp: keys_def)
  have 2: "is_dict ps \<longrightarrow> is_dict ps'" using IH d1 by simp
  have 3: "cls = PlainDict \<longrightarrow> keys (x # rest) \<subseteq> keys ps \<and> map fst ps' = map fst ps"
    using IH k1 pk m1 unfolding x by (auto simp: keys_def)
  have 4: "\<forall>q. map_of ps' q =
        (case map_of (x # rest) q of
           None \<Rightarrow> map_of ps q
         | Some f \<Rightarrow> Some ((defaultdict_get ps {} q - flow_out f) \<union> flow_in f))"
  proof
    fix q
    show "map_of ps' q =
        (case map_of (x # rest) q of
           None \<Rightarrow> map_of ps q
         | Some f \<Rightarrow> Some ((defaultdict_get ps {} q - flow_out f) \<union> flow_in f))"
    proof (cases "q = p")
      case True
      then show ?thesis using IH pr unfolding x by (simp add: update_conv')
    next
      case False
      then show ?thesis using IH unfolding x
        by (auto simp: update_conv' defaultdict_get_update split: option.splits)
    qed
  qed
  show ?case using 1 2 3 4 by blast
qed

lemma apply_flows_total:
  "cls = DefaultDictOfSet \<or> keys fws \<subseteq> keys ps \<Longrightarrow> \<exists>ps'. apply_flows cls ps fws = Inr ps'"
proof (cases "apply_flows cls ps fws")
  case (Inl e)
  from apply_flows_Inl[OF this]
  show "cls = DefaultDictOfSet \<or> keys fws \<subseteq> keys ps \<Longrightarrow> ?thesis" by auto
next
  case (Inr a) then show ?thesis by blast
qed

lemma dg_map_of:
  "dg fws p = (case map_of fws p of None \<Rightarrow> create_flow | Some f \<Rightarrow> f)"
  by (simp add: dg_def defaultdict_get_def)

lemma apply_flows_lookup:
  assumes "apply_flows cls ps fws = Inr ps'" "is_dict fws"
  shows "map_of ps' p =
    (if p \<in> keys fws
     then Some ((defaultdict_get ps {} p - flow_out (dg fws p)) \<union> flow_in (dg fws p))
     else map_of ps p)"
proof -
  from apply_flows_Inr[OF assms] have
    "map_of ps' p = (case map_of fws p of
           None \<Rightarrow> map_of ps p
         | Some f \<Rightarrow> Some ((defaultdict_get ps {} p - flow_out f) \<union> flow_in f))" by blast
  then show ?thesis using map_of_keys[of fws p]
    by (cases "map_of fws p") (simp_all add: dg_map_of)
qed

lemma getitem_key: "Assignment_getitem a n = Inr p \<Longrightarrow> p \<in> keys (parts a)"
  using getitem_loop_Inr[of "parts a" n p] by (force simp: Assignment_getitem_def keys_def)

lemma getitem_Inl: "Assignment_getitem a n = Inl e \<Longrightarrow> e = KeyError_node n"
  using getitem_loop_Inl[of "parts a" n e] by (simp add: Assignment_getitem_def)

lemma flows_loop_nodes:
  "flows_from_changes_loop a D fws0 = Inr fws \<Longrightarrow> n \<in> fst ` set D \<Longrightarrow>
     \<exists>p. Assignment_getitem a n = Inr p"
proof (induction D arbitrary: fws0)
  case Nil then show ?case by simp
next
  case (Cons x rest)
  obtain m t where x: "x = (m, t)" by (cases x)
  from Cons.prems(1) obtain s where s: "Assignment_getitem a m = Inr s"
    unfolding x flows_loop_Cons by (auto split: sum.splits)
  from Cons.prems(1) s obtain f where f: "flows_from_changes_loop a rest f = Inr fws"
    unfolding x flows_loop_Cons by (auto split: if_splits)
  show ?case
  proof (cases "n = m")
    case True then show ?thesis using s by blast
  next
    case False
    with Cons.prems(2) have "n \<in> fst ` set rest" unfolding x by auto
    from Cons.IH[OF f this] show ?thesis .
  qed
qed

lemma flows_Inr:
  assumes "flows_from_changes a D = Inr fws"
  shows "is_dict fws"
    and "keys fws = {p. in_nodes a D p \<noteq> {}} \<union> {p. out_nodes a D p \<noteq> {}}"
    and "flow_in (dg fws p) = in_nodes a D p"
    and "flow_out (dg fws p) = out_nodes a D p"
    and "n \<in> fst ` set D \<Longrightarrow> \<exists>q. Assignment_getitem a n = Inr q"
proof -
  note r = flows_loop_Inr[OF assms[unfolded flows_from_changes_def]]
  show "is_dict fws" using r by (simp add: is_dict_def)
  show "keys fws = {p. in_nodes a D p \<noteq> {}} \<union> {p. out_nodes a D p \<noteq> {}}"
    using r by (simp add: keys_def)
  show "flow_in (dg fws p) = in_nodes a D p"
    using r by (simp add: dg_def defaultdict_get_def create_flow_def)
  show "flow_out (dg fws p) = out_nodes a D p"
    using r by (simp add: dg_def defaultdict_get_def create_flow_def)
  show "n \<in> fst ` set D \<Longrightarrow> \<exists>q. Assignment_getitem a n = Inr q"
    using flows_loop_nodes[OF assms[unfolded flows_from_changes_def]] by blast
qed

lemma out_nodes_key: "out_nodes a D p \<noteq> {} \<Longrightarrow> p \<in> keys (parts a)"
  by (auto simp: out_nodes_def dest: getitem_key)

lemma in_nodes_target: "in_nodes a D p \<noteq> {} \<Longrightarrow> p \<in> snd ` set D"
  by (force simp: in_nodes_def)

lemma is_dict_map_of: "is_dict d \<Longrightarrow> ((k, v) \<in> set d) = (map_of d k = Some v)"
  by (simp add: is_dict_def)

lemma disjoint_partsI:
  assumes "is_dict ps" "\<And>n p q. member_of ps n p \<Longrightarrow> member_of ps n q \<Longrightarrow> p = q"
  shows "disjoint_parts ps"
  unfolding disjoint_parts_alt
proof (intro conjI allI impI)
  show "is_dict ps" by fact
next
  fix p q s t assume "map_of ps p = Some s" "map_of ps q = Some t" "p \<noteq> q"
  show "s \<inter> t = {}"
  proof (rule ccontr)
    assume "s \<inter> t \<noteq> {}"
    then obtain n where "n \<in> s" "n \<in> t" by blast
    then have "member_of ps n p" "member_of ps n q"
      using \<open>map_of ps p = Some s\<close> \<open>map_of ps q = Some t\<close> by (auto simp: member_of_def)
    from assms(2)[OF this] \<open>p \<noteq> q\<close> show False by simp
  qed
qed

lemma getitem_member: "disjoint_parts (parts a) \<Longrightarrow> (Assignment_getitem a n = Inr p) = member_of (parts a) n p"
  by (simp add: Assignment_getitem_def member_of_def getitem_loop_iff)

lemma getitem_of_member:
  assumes "disjoint_parts (parts a)" "\<And>p. member_of (parts a) n p = (r = Inr p)"
    "\<And>e. r = Inl e \<Longrightarrow> e = KeyError_node n"
  shows "Assignment_getitem a n = r"
proof (cases r)
  case (Inr p)
  then show ?thesis using assms(1,2) by (simp add: getitem_member)
next
  case (Inl e)
  then have e: "e = KeyError_node n" by (rule assms(3))
  show ?thesis
  proof (cases "Assignment_getitem a n")
    case (Inl e') then show ?thesis using getitem_Inl[OF Inl] e \<open>r = Inl e\<close> by simp
  next
    case (Inr p)
    then have "member_of (parts a) n p" using assms(1) by (simp add: getitem_member)
    then show ?thesis using assms(2) \<open>r = Inl e\<close> by simp
  qed
qed

lemma update_Inl:
  assumes "update a D = Inl e"
  shows "(\<exists>n \<in> fst ` set D. e = KeyError_node n \<and> Assignment_getitem a n = Inl (KeyError_node n)) \<or>
         ((\<forall>n \<in> fst ` set D. \<exists>p. Assignment_getitem a n = Inr p) \<and> parts_class a = PlainDict \<and>
          (\<exists>q \<in> snd ` set D. q \<notin> keys (parts a) \<and> e = KeyError_part q))"
proof (cases "flows_from_changes a D")
  case (Inl e')
  with assms have "e' = e" by (simp add: update_def)
  with flows_loop_Inl[OF Inl[unfolded flows_from_changes_def]] show ?thesis by blast
next
  case (Inr fws)
  with assms have "apply_flows (parts_class a) (parts a) fws = Inl e"
    by (simp add: update_def split: sum.splits)
  from apply_flows_Inl[OF this] obtain q where c: "parts_class a = PlainDict"
    and q: "q \<in> keys fws" "q \<notin> keys (parts a)" "e = KeyError_part q"
    by blast
  from q(1) flows_Inr(2)[OF Inr] have "in_nodes a D q \<noteq> {} \<or> out_nodes a D q \<noteq> {}" by auto
  with q(2) out_nodes_key[of a D q] have "in_nodes a D q \<noteq> {}" by blast
  then have "q \<in> snd ` set D" by (rule in_nodes_target)
  moreover have "\<forall>n \<in> fst ` set D. \<exists>p. Assignment_getitem a n = Inr p"
    using flows_Inr(5)[OF Inr] by blast
  ultimately show ?thesis using q c by blast
qed

lemma update_Inr:
  assumes "update a D = Inr a'"
  shows "parts_class a' = parts_class a"
    and "is_dict (parts a) \<Longrightarrow> is_dict (parts a')"
    and "map_of (parts a') p =
           (if in_nodes a D p \<noteq> {} \<or> out_nodes a D p \<noteq> {}
            then Some ((defaultdict_get (parts a) {} p - out_nodes a D p) \<union> in_nodes a D p)
            else map_of (parts a) p)"
    and "n \<in> fst ` set D \<Longrightarrow> \<exists>q. Assignment_getitem a n = Inr q"
    and "parts_class a = PlainDict \<Longrightarrow> in_nodes a D p \<noteq> {} \<Longrightarrow> p \<in> keys (parts a)"
    and "parts_class a = PlainDict \<Longrightarrow> map fst (parts a') = map fst (parts a)"
    and "keys (parts a') = keys (parts a) \<union> {p. in_nodes a D p \<noteq> {}}"
proof -
  from assms obtain fws where fws: "flows_from_changes a D = Inr fws"
    and ap: "apply_flows (parts_class a) (parts a) fws = Inr (parts a')"
    and cl: "parts_class a' = parts_class a"
    by (auto simp: update_def split: sum.splits)
  note d = flows_Inr(1)[OF fws]
  note k = flows_Inr(2)[OF fws]
  note r = apply_flows_Inr[OF ap d]
  show "parts_class a' = parts_class a" by (rule cl)
  show "is_dict (parts a) \<Longrightarrow> is_dict (parts a')" using r by blast
  show "map_of (parts a') p =
           (if in_nodes a D p \<noteq> {} \<or> out_nodes a D p \<noteq> {}
            then Some ((defaultdict_get (parts a) {} p - out_nodes a D p) \<union> in_nodes a D p)
            else map_of (parts a) p)"
    using apply_flows_lookup[OF ap d, of p] flows_Inr(3,4)[OF fws, of p] k by auto
  show "n \<in> fst ` set D \<Longrightarrow> \<exists>q. Assignment_getitem a n = Inr q"
    using flows_Inr(5)[OF fws] by blast
  show "parts_class a = PlainDict \<Longrightarrow> in_nodes a D p \<noteq> {} \<Longrightarrow> p \<in> keys (parts a)"
    using k r by blast
  show "parts_class a = PlainDict \<Longrightarrow> map fst (parts a') = map fst (parts a)"
    using r by blast
  have "{p. out_nodes a D p \<noteq> {}} \<subseteq> keys (parts a)" using out_nodes_key[of a D] by blast
  then show "keys (parts a') = keys (parts a) \<union> {p. in_nodes a D p \<noteq> {}}" using r k by blast
qed

lemma update_Inr_keys:
  assumes "update a D = Inr a'" "(n, t) \<in> set D" "parts_class a = PlainDict"
  shows "t \<in> keys (parts a)"
proof -
  from update_Inr(4)[OF assms(1), of n] assms(2) obtain s where s: "Assignment_getitem a n = Inr s"
    by force
  show ?thesis
  proof (cases "s = t")
    case True then show ?thesis using getitem_key[OF s] by simp
  next
    case False
    then have "n \<in> in_nodes a D t" using s assms(2) by (auto simp: in_nodes_def)
    then have "in_nodes a D t \<noteq> {}" by blast
    then show ?thesis by (rule update_Inr(5)[OF assms(1,3)])
  qed
qed

lemma defaultdict_get_member: "(n \<in> defaultdict_get ps {} p) = member_of ps n p"
  by (cases "map_of ps p") (simp_all add: defaultdict_get_def member_of_def)

lemma update_member:
  assumes u: "update a D = Inr a'" and dp: "disjoint_parts (parts a)" and dd: "is_dict D"
  shows "member_of (parts a') n p = (new_part a D n = Inr p)"
proof -
  have mem2: "member_of (parts a') n p =
      ((member_of (parts a) n p \<and> n \<notin> out_nodes a D p) \<or> n \<in> in_nodes a D p)"
  proof (cases "in_nodes a D p \<noteq> {} \<or> out_nodes a D p \<noteq> {}")
    case True
    then have "map_of (parts a') p =
        Some ((defaultdict_get (parts a) {} p - out_nodes a D p) \<union> in_nodes a D p)"
      using update_Inr(3)[OF u, of p] by simp
    then show ?thesis by (auto simp: member_of_def[of "parts a'"] defaultdict_get_member)
  next
    case False
    then have "map_of (parts a') p = map_of (parts a) p" using update_Inr(3)[OF u, of p] by simp
    then show ?thesis using False by (simp add: member_of_def)
  qed
  have g: "member_of (parts a) n p = (Assignment_getitem a n = Inr p)"
    using dp by (simp add: getitem_member)
  show ?thesis
  proof (cases "map_of D n")
    case None
    then have "\<And>t. (n, t) \<notin> set D" using dd by (simp add: is_dict_map_of)
    then have "n \<notin> out_nodes a D p" "n \<notin> in_nodes a D p"
      by (auto simp: out_nodes_def in_nodes_def)
    then show ?thesis using mem2 g None by (simp add: new_part_def)
  next
    case (Some t)
    then have nt: "\<And>t'. ((n, t') \<in> set D) = (t' = t)" using dd by (auto simp: is_dict_map_of)
    then have "n \<in> fst ` set D" by force
    from update_Inr(4)[OF u this] obtain s where s: "Assignment_getitem a n = Inr s" by blast
    have o: "(n \<in> out_nodes a D p) = (p = s \<and> s \<noteq> t)"
      using nt s by (auto simp: out_nodes_def)
    have i: "(n \<in> in_nodes a D p) = (p = t \<and> s \<noteq> t)"
      using nt s by (auto simp: in_nodes_def)
    show ?thesis unfolding mem2 g o i using s Some by (auto simp: new_part_def)
  qed
qed

lemma update_disjoint:
  assumes u: "update a D = Inr a'" and dp: "disjoint_parts (parts a)" and dd: "is_dict D"
  shows "disjoint_parts (parts a')"
proof (rule disjoint_partsI)
  show "is_dict (parts a')" using update_Inr(2)[OF u] dp by (simp add: disjoint_parts_alt)
next
  fix n p q assume "member_of (parts a') n p" "member_of (parts a') n q"
  then show "p = q" using update_member[OF u dp dd] by simp
qed

lemma update_getitem:
  assumes u: "update a D = Inr a'" and dp: "disjoint_parts (parts a)" and dd: "is_dict D"
  shows "Assignment_getitem a' n = new_part a D n"
proof (rule getitem_of_member)
  show "disjoint_parts (parts a')" by (rule update_disjoint[OF u dp dd])
next
  fix p show "member_of (parts a') n p = (new_part a D n = Inr p)" by (rule update_member[OF u dp dd])
next
  fix e assume "new_part a D n = Inl e"
  then show "e = KeyError_node n"
    by (auto simp: new_part_def split: option.splits dest: getitem_Inl)
qed

lemma update_total:
  assumes "\<forall>(n, t) \<in> set D. (\<exists>p. Assignment_getitem a n = Inr p) \<and>
                              (parts_class a = PlainDict \<longrightarrow> t \<in> keys (parts a))"
  shows "\<exists>a'. update a D = Inr a'"
proof (cases "update a D")
  case (Inr a') then show ?thesis by blast
next
  case (Inl e)
  from update_Inl[OF Inl] assms show ?thesis by fastforce
qed

text \<open>In the flows that \<open>flows_from_changes\<close> derives, no node is in the "in" and in the
  "out" set of one part's record: a node enters a part only when its old part is another
  one. These are the only flows that \<^verbatim>\<open>Assignment.update\<close> applies.\<close>

lemma flows_from_changes_consistent:
  assumes "flows_from_changes a D = Inr fws" and "(part, f) \<in> set fws"
  shows "flow_in f \<inter> flow_out f = {}"
proof -
  have mf: "map_of fws part = Some f" using flows_Inr(1)[OF assms(1)] assms(2) by (simp add: is_dict_map_of)
  then have "dg fws part = f" by (simp add: dg_map_of)
  then have "flow_in f = in_nodes a D part" "flow_out f = out_nodes a D part"
    using flows_Inr(3,4)[OF assms(1), of part] by simp_all
  then show ?thesis by (auto simp: in_nodes_def out_nodes_def)
qed

lemma level_sets_loop_props:
  "(is_dict sets0 \<longrightarrow> is_dict (level_sets_loop m sets0)) \<and>
   keys (level_sets_loop m sets0) = keys sets0 \<union> snd ` set m \<and>
   (\<forall>p. defaultdict_get (level_sets_loop m sets0) {} p = defaultdict_get sets0 {} p \<union> {n. (n, p) \<in> set m})"
proof (induction m arbitrary: sets0)
  case Nil then show ?case by simp
next
  case (Cons x rest)
  obtain n t where x: "x = (n, t)" by (cases x)
  let ?s1 = "AList.update t (insert n (defaultdict_get sets0 {} t)) sets0"
  note IH = Cons.IH[of ?s1]
  have d1: "is_dict sets0 \<longrightarrow> is_dict ?s1" by (simp add: is_dict_def distinct_update)
  have k1: "keys ?s1 = insert t (keys sets0)" by (simp add: keys_def dom_update)
  have g1: "\<And>p. defaultdict_get ?s1 {} p = (if p = t then insert n (defaultdict_get sets0 {} t) else defaultdict_get sets0 {} p)"
    by (simp add: defaultdict_get_def update_conv')
  have 1: "is_dict sets0 \<longrightarrow> is_dict (level_sets_loop (x # rest) sets0)"
    using IH d1 unfolding x by simp
  have 2: "keys (level_sets_loop (x # rest) sets0) = keys sets0 \<union> snd ` set (x # rest)"
    using IH k1 unfolding x by auto
  have 3: "\<forall>p. defaultdict_get (level_sets_loop (x # rest) sets0) {} p = defaultdict_get sets0 {} p \<union> {n. (n, p) \<in> set (x # rest)}"
    using IH g1 unfolding x by auto
  show ?case using 1 2 3 by blast
qed

lemma from_dict_parts: "parts (from_dict m) = level_sets m"
  by (simp add: from_dict_def)

lemma from_dict_is_dict: "is_dict (parts (from_dict m))"
  using level_sets_loop_props[of "[]" m] by (simp add: from_dict_parts level_sets_def is_dict_def)

lemma from_dict_keys: "keys (parts (from_dict m)) = snd ` set m"
  using level_sets_loop_props[of "[]" m] by (simp add: from_dict_parts level_sets_def keys_def)

lemma from_dict_member: "member_of (parts (from_dict m)) n p = ((n, p) \<in> set m)"
proof -
  have g: "defaultdict_get (level_sets m) {} p = {n. (n, p) \<in> set m}"
    using level_sets_loop_props[of "[]" m] by (simp add: level_sets_def defaultdict_get_def)
  show ?thesis
  proof (cases "map_of (level_sets m) p")
    case None
    then have "{n. (n, p) \<in> set m} = {}" using g by (simp add: defaultdict_get_def)
    then show ?thesis using None by (auto simp: member_of_def from_dict_parts)
  next
    case (Some s)
    then have "s = {n. (n, p) \<in> set m}" using g by (simp add: defaultdict_get_def)
    then show ?thesis using Some by (simp add: member_of_def from_dict_parts)
  qed
qed

lemma from_dict_disjoint: "is_dict m \<Longrightarrow> disjoint_parts (parts (from_dict m))"
proof (rule disjoint_partsI)
  show "is_dict (parts (from_dict m))" by (rule from_dict_is_dict)
next
  fix n p q assume "is_dict m" "member_of (parts (from_dict m)) n p" "member_of (parts (from_dict m)) n q"
  then show "p = q" by (simp add: from_dict_member is_dict_map_of)
qed

lemma from_dict_getitem:
  assumes "is_dict m"
  shows "Assignment_getitem (from_dict m) n =
           (case map_of m n of Some p \<Rightarrow> Inr p | None \<Rightarrow> Inl (KeyError_node n))"
proof (rule getitem_of_member)
  show "disjoint_parts (parts (from_dict m))" by (rule from_dict_disjoint[OF assms])
next
  fix p show "member_of (parts (from_dict m)) n p =
    ((case map_of m n of Some p \<Rightarrow> Inr p | None \<Rightarrow> Inl (KeyError_node n)) = Inr p)"
    using assms by (auto simp: from_dict_member is_dict_map_of split: option.splits)
next
  fix e assume "(case map_of m n of Some p \<Rightarrow> Inr p | None \<Rightarrow> Inl (KeyError_node n)) = Inl e"
  then show "e = KeyError_node n" by (auto split: option.splits)
qed

lemma member_of_set: "is_dict ps \<Longrightarrow> member_of ps n p = (\<exists>s. (p, s) \<in> set ps \<and> n \<in> s)"
  by (simp add: member_of_def is_dict_map_of)

lemma from_dict_union: "\<Union> (snd ` set (parts (from_dict m))) = fst ` set m"
proof -
  have "\<And>n. (n \<in> \<Union> (snd ` set (parts (from_dict m)))) = (\<exists>p. member_of (parts (from_dict m)) n p)"
    using member_of_set[OF from_dict_is_dict] by fastforce
  then show ?thesis by (force simp: from_dict_member)
qed

lemma set_cache_sel [simp]:
  "graph (set_cache s c) = graph s" "assignment (set_cache s c) = assignment s"
  "parent (set_cache s c) = parent s" "flips (set_cache s c) = flips s"
  "flows (set_cache s c) = flows s" "edge_flows (set_cache s c) = edge_flows s"
  "partition_parts (set_cache s c) = partition_parts s" "cache (set_cache s c) = c"
  by (simp_all add: set_cache_def)

lemma set_parts_sel [simp]:
  "graph (set_parts s c) = graph s" "assignment (set_parts s c) = assignment s"
  "parent (set_parts s c) = parent s" "flips (set_parts s c) = flips s"
  "flows (set_parts s c) = flows s" "edge_flows (set_parts s c) = edge_flows s"
  "partition_parts (set_parts s c) = c" "cache (set_parts s c) = cache s"
  by (simp_all add: set_parts_def)

lemma set_edge_flows_sel [simp]:
  "graph (set_edge_flows s c) = graph s" "assignment (set_edge_flows s c) = assignment s"
  "parent (set_edge_flows s c) = parent s" "flips (set_edge_flows s c) = flips s"
  "flows (set_edge_flows s c) = flows s" "edge_flows (set_edge_flows s c) = c"
  "partition_parts (set_edge_flows s c) = partition_parts s" "cache (set_edge_flows s c) = cache s"
  by (simp_all add: set_edge_flows_def)

lemma set_cache_set_cache [simp]: "set_cache (set_cache s c) c' = set_cache s c'"
  by (simp add: set_cache_def)

lemma update_loop_frame:
  "Partition_update_loop ks P = Inr P' \<Longrightarrow>
     set_cache (state P') c = set_cache (state P) c \<and> updaters P' = updaters P"
proof (induction ks arbitrary: P)
  case Nil then show ?case by simp
next
  case (Cons k ks)
  show ?case
  proof (cases "k \<in> keys (cache (state P))")
    case True
    with Cons.prems have "Partition_update_loop ks P = Inr P'" by simp
    from Cons.IH[OF this] show ?thesis .
  next
    case False
    with Cons.prems obtain f v where f: "map_of (updaters P) k = Some f" "f (state P) = Inr v"
      and r: "Partition_update_loop ks (Partition (set_cache (state P) (AList.update k v (cache (state P))))
                       (updaters P) (invocations P @ [k])) = Inr P'"
      by (auto split: option.splits sum.splits)
    from Cons.IH[OF r] show ?thesis by simp
  qed
qed

lemma update_loop_log:
  "Partition_update_loop ks P = Inr P' \<Longrightarrow>
     distinct (invocations P) \<Longrightarrow> set (invocations P) = keys (cache (state P)) \<Longrightarrow>
     distinct (invocations P') \<and> set (invocations P') = keys (cache (state P')) \<and>
     keys (cache (state P')) = keys (cache (state P)) \<union> set ks"
proof (induction ks arbitrary: P)
  case Nil then show ?case by simp
next
  case (Cons k ks)
  show ?case
  proof (cases "k \<in> keys (cache (state P))")
    case True
    with Cons.prems(1) have "Partition_update_loop ks P = Inr P'" by simp
    from Cons.IH[OF this Cons.prems(2,3)] True show ?thesis by auto
  next
    case False
    with Cons.prems(1) obtain f v where f: "map_of (updaters P) k = Some f" "f (state P) = Inr v"
      and r: "Partition_update_loop ks (Partition (set_cache (state P) (AList.update k v (cache (state P))))
                       (updaters P) (invocations P @ [k])) = Inr P'"
      by (auto split: option.splits sum.splits)
    let ?P1 = "Partition (set_cache (state P) (AList.update k v (cache (state P))))
                       (updaters P) (invocations P @ [k])"
    have d: "distinct (invocations ?P1)" using Cons.prems(2,3) False by simp
    have s: "set (invocations ?P1) = keys (cache (state ?P1))"
      using Cons.prems(3) by (simp add: keys_def dom_update)
    from Cons.IH[OF r d s] show ?thesis by (auto simp: keys_def dom_update)
  qed
qed

lemma Partition_update_Inr:
  assumes "Partition_update P = Inr P'" "invocations P = []"
  shows "set_cache (state P') c = set_cache (state P) c" "updaters P' = updaters P"
    "distinct (invocations P')" "set (invocations P') = keys (updaters P)"
    "keys (cache (state P')) = keys (updaters P)"
proof -
  let ?P0 = "Partition (set_cache (state P) []) (updaters P) (invocations P)"
  from assms(1) have r: "Partition_update_loop (map fst (updaters P)) ?P0 = Inr P'"
    by (simp add: Partition_update_def)
  from update_loop_frame[OF r, of c] show "set_cache (state P') c = set_cache (state P) c"
    "updaters P' = updaters P" by simp_all
  have "distinct (invocations ?P0)" "set (invocations ?P0) = keys (cache (state ?P0))"
    using assms(2) by (simp_all add: keys_def)
  from update_loop_log[OF r this] show "distinct (invocations P')"
    "set (invocations P') = keys (updaters P)" "keys (cache (state P')) = keys (updaters P)"
    by (simp_all add: keys_def)
qed

lemma set_cache_eq_sel:
  assumes "set_cache s [] = set_cache s' []"
  shows "graph s = graph s'" "assignment s = assignment s'" "parent s = parent s'"
    "flips s = flips s'" "flows s = flows s'" "edge_flows s = edge_flows s'"
    "partition_parts s = partition_parts s'"
  using assms by (simp_all add: set_cache_def)

lemma from_parent_Inr:
  assumes "from_parent cef P Dopt = Inr C0"
  shows "\<exists>D a'. Dopt = Some D \<and> update (assignment (state P)) D = Inr a' \<and> assignment (state C0) = a'"
    and "graph (state C0) = graph (state P)" and "parent (state C0) = Some (state P)"
    and "partition_parts (state C0) = partition_parts (state P)"
    and "updaters C0 = updaters P" and "invocations C0 = []" and "flips (state C0) = Dopt"
  using assms
  by (auto simp: from_parent_def copy_def Let_def update_def split: option.splits sum.splits)

lemma first_time_None: "first_time None (Other PyNone) None = Inl (TypeError ''Assignment must be a dict or a node attribute key'')"
  by (simp add: first_time_def get_assignment_def)

lemma merge_Inr:
  assumes "merge cef P D = Inr C"
  shows "Partition_len P \<noteq> 0" and "\<exists>C0. from_parent cef P (Some D) = Inr C0 \<and> Partition_update C0 = Inr C"
proof -
  show t: "Partition_len P \<noteq> 0"
  proof
    assume "Partition_len P = 0"
    then have "merge cef P D = Inl (TypeError ''Assignment must be a dict or a node attribute key'')"
      by (simp add: merge_def Partition_init_def truthy_def first_time_None)
    with assms show False by simp
  qed
  then show "\<exists>C0. from_parent cef P (Some D) = Inr C0 \<and> Partition_update C0 = Inr C"
    using assms by (auto simp: merge_def Partition_init_def truthy_def split: sum.splits)
qed

lemma merge_Inr_fields:
  assumes "merge cef P D = Inr C"
  shows "update (assignment (state P)) D = Inr (assignment (state C))"
    and "graph (state C) = graph (state P)" and "parent (state C) = Some (state P)"
    and "partition_parts (state C) = partition_parts (state P)"
    and "updaters C = updaters P" and "flips (state C) = Some D"
proof -
  from merge_Inr(2)[OF assms] obtain C0 where c0: "from_parent cef P (Some D) = Inr C0"
    and u: "Partition_update C0 = Inr C" by blast
  note fp = from_parent_Inr[OF c0]
  note fr = Partition_update_Inr(1,2)[OF u fp(6)]
  note sel = set_cache_eq_sel[OF fr(1)[of "[]"]]
  show "update (assignment (state P)) D = Inr (assignment (state C))" using fp(1) sel(2) by auto
  show "graph (state C) = graph (state P)" using fp(2) sel(1) by simp
  show "parent (state C) = Some (state P)" using fp(3) sel(3) by simp
  show "partition_parts (state C) = partition_parts (state P)" using fp(4) sel(7) by simp
  show "updaters C = updaters P" using fp(5) fr(2) by simp
  show "flips (state C) = Some D" using fp(7) sel(4) by simp
qed

section \<open>The root attribute \<^verbatim>\<open>parts\<close> and the scenario\<close>

lemma update_absent: "k \<notin> fst ` set al \<Longrightarrow> AList.update k v al = al @ [(k, v)]"
  by (induction al) auto

lemma level_sets_loop_append:
  "level_sets_loop (xs @ ys) s = level_sets_loop ys (level_sets_loop xs s)"
  by (induction xs arbitrary: s) auto

lemma level_sets_loop_row:
  "level_sets_loop (map (\<lambda>n. (n, p)) xs) s =
     (if xs = [] then s else AList.update p (defaultdict_get s {} p \<union> set xs) s)"
proof (induction xs arbitrary: s)
  case Nil then show ?case by simp
next
  case (Cons x xs)
  let ?s1 = "AList.update p (insert x (defaultdict_get s {} p)) s"
  have g: "defaultdict_get ?s1 {} p = insert x (defaultdict_get s {} p)"
    by (simp add: defaultdict_get_def update_conv')
  show ?case
  proof (cases "xs = []")
    case True then show ?thesis by simp
  next
    case False
    have e: "insert x (defaultdict_get s {} p) \<union> set xs = defaultdict_get s {} p \<union> set (x # xs)"
      by auto
    have "level_sets_loop (map (\<lambda>n. (n, p)) (x # xs)) s = level_sets_loop (map (\<lambda>n. (n, p)) xs) ?s1"
      by simp
    also have "\<dots> = AList.update p (defaultdict_get ?s1 {} p \<union> set xs) ?s1"
      using Cons.IH[of ?s1] False by simp
    also have "\<dots> = AList.update p (defaultdict_get s {} p \<union> set (x # xs)) s"
      unfolding g e by simp
    finally show ?thesis by simp
  qed
qed

lemma level_sets_loop_items:
  "distinct (map fst ps) \<Longrightarrow> fst ` set ps \<inter> fst ` set s = {} \<Longrightarrow> \<forall>(p, t) \<in> set ps. finite t \<Longrightarrow>
     level_sets_loop
       (concat (map (\<lambda>(part, nodes). map (\<lambda>node. (node, part)) (sorted_list_of_set nodes)) ps)) s =
     s @ filter (\<lambda>(p, t). t \<noteq> {}) ps"
proof (induction ps arbitrary: s)
  case Nil then show ?case by simp
next
  case (Cons x ps)
  obtain p t where x: "x = (p, t)" by (cases x)
  from Cons.prems have fin: "finite t" and pn: "p \<notin> fst ` set s" and pp: "p \<notin> fst ` set ps"
    and d: "distinct (map fst ps)" and f: "\<forall>(p, t) \<in> set ps. finite t"
    and dj: "fst ` set ps \<inter> fst ` set s = {}"
    unfolding x by auto
  have g: "defaultdict_get s {} p = {}"
    using pn by (simp add: defaultdict_get_def map_of_eq_None_iff[THEN iffD2])
  let ?s1 = "if t = {} then s else s @ [(p, t)]"
  have row: "level_sets_loop (map (\<lambda>n. (n, p)) (sorted_list_of_set t)) s = ?s1"
    using fin g pn by (simp add: level_sets_loop_row update_absent)
  have dj1: "fst ` set ps \<inter> fst ` set ?s1 = {}" using dj pp by auto
  show ?case
    unfolding x using Cons.IH[OF d dj1 f] row
    by (simp add: level_sets_loop_append)
qed

lemma level_sets_items:
  "is_dict (parts a) \<Longrightarrow> \<forall>(p, t) \<in> set (parts a). finite t \<Longrightarrow>
     level_sets (items a) = filter (\<lambda>(p, t). t \<noteq> {}) (parts a)"
  using level_sets_loop_items[of "parts a" "[]"]
  by (simp add: level_sets_def items_def is_dict_def)

lemma from_dict_scenario: "from_dict scenario_assignment = Assignment [(''A'', {2, 1}), (''B'', {4, 3})] PlainDict"
  by (simp add: scenario_assignment_def from_dict_def level_sets_def defaultdict_get_def)

lemma scenario_root_init: "Partition_init cef (Some scenario_graph) (Dict scenario_assignment) None None None = Inr scenario_root"
  by (simp add: Partition_init_def truthy_def first_time_def get_assignment_def from_dict_scenario level_sets_items is_dict_def
    Partition_update_def default_updaters_def dict_update_def set_cache_def set_parts_def scenario_root_def)

lemma update_scenario: "update (Assignment [(''A'', {2, 1::int}), (''B'', {4, 3})] PlainDict) [(2, ''B'')] = Inr (Assignment [(''A'', {1}), (''B'', {2, 3, 4})] PlainDict)"
  by (auto simp add: update_def flows_from_changes_def Assignment_getitem_def defaultdict_get_def create_flow_def Let_def)

lemma scenario_child_merge: "merge no_edge_flows scenario_root [(2, ''B'')] = Inr scenario_child"
  apply (simp add: merge_def Partition_init_def truthy_def Partition_len_def scenario_root_def from_parent_def copy_def
     update_scenario)
  apply (simp add: flows_from_changes_def Assignment_getitem_def defaultdict_get_def create_flow_def Let_def no_edge_flows_def
     Partition_update_def set_cache_def set_edge_flows_def scenario_child_def scenario_root_def)
  done

lemma parts_size_root_init:
  "Partition_init cef (Some scenario_graph) (Dict scenario_assignment) (Some [(''size'', parts_size)]) None None
     = Inr parts_size_root"
  by (simp add: Partition_init_def truthy_def first_time_def get_assignment_def from_dict_scenario level_sets_items is_dict_def
    Partition_update_def default_updaters_def dict_update_def set_cache_def set_parts_def parts_size_root_def keys_def
    parts_size_def)

lemma assignment_size_root_init:
  "Partition_init cef (Some scenario_graph) (Dict scenario_assignment) (Some [(''size'', assignment_size)]) None None
     = Inr assignment_size_root"
  by (simp add: Partition_init_def truthy_def first_time_def get_assignment_def from_dict_scenario level_sets_items is_dict_def
    Partition_update_def default_updaters_def dict_update_def set_cache_def set_parts_def assignment_size_root_def keys_def
    assignment_size_def)

lemma overlap_root_init:
  "Partition_init cef (Some overlap_graph) (AssignmentObj overlap_assignment) None None None = Inr overlap_root"
  by (simp add: Partition_init_def truthy_def first_time_def get_assignment_def overlap_assignment_def
    items_def level_sets_def defaultdict_get_def
    Partition_update_def default_updaters_def dict_update_def set_cache_def set_parts_def overlap_root_def)

lemma update_overlap:
  "update (Assignment [(''A'', {1::int}), (''B'', {1}), (''C'', {2})] PlainDict) [(1, ''C'')] =
     Inr (Assignment [(''A'', {}), (''B'', {1}), (''C'', {1, 2})] PlainDict)"
  by (auto simp add: update_def flows_from_changes_def Assignment_getitem_def defaultdict_get_def create_flow_def Let_def)

lemma overlap_child_merge: "merge no_edge_flows overlap_root [(1, ''C'')] = Inr overlap_child"
  apply (simp add: merge_def Partition_init_def truthy_def Partition_len_def overlap_root_def from_parent_def copy_def
     overlap_assignment_def update_overlap)
  apply (simp add: flows_from_changes_def Assignment_getitem_def defaultdict_get_def create_flow_def Let_def no_edge_flows_def
     Partition_update_def set_cache_def set_edge_flows_def overlap_child_def overlap_root_def overlap_assignment_def)
  done

lemma scenario_new_part_merge:
  "merge no_edge_flows scenario_root [(2, ''C'')] = Inl (KeyError_part ''C'')"
  by (simp add: merge_def Partition_init_def truthy_def Partition_len_def scenario_root_def from_parent_def copy_def
     update_def flows_from_changes_def Assignment_getitem_def defaultdict_get_def create_flow_def Let_def)

section \<open>Updaters that look up other entries: each is called once\<close>

text \<open>The value of a name does not change with the depth once it is there.\<close>

lemma propagating_getitem_then [simp]:
  "propagating (getitem_then name k) = (\<forall>v. propagating (k v))"
  by (simp add: getitem_then_def)

lemma eval_lookups_Getitem:
  assumes "propagating (Getitem name k)" and "eval_lookups val (Getitem name k) = Inr v"
  obtains w where "val name = Inr w" and "eval_lookups val (k (Inr w)) = Inr v"
    and "propagating (k (Inr w))"
proof (cases "val name")
  case (Inl e)
  from assms(1) have "k (Inl e) = Return (Inl e)" by simp
  with assms(2) Inl show ?thesis by simp
next
  case (Inr w)
  with assms that show ?thesis by simp
qed

lemma eval_lookups_mono:
  assumes "\<And>k v. val k = Inr v \<Longrightarrow> val' k = Inr v"
  shows "propagating p \<Longrightarrow> eval_lookups val p = Inr v \<Longrightarrow> eval_lookups val' p = Inr v"
proof (induction p)
  case (Return r) then show ?case by simp
next
  case (Getitem name k)
  from eval_lookups_Getitem[OF Getitem.prems] obtain w where w: "val name = Inr w"
    and e: "eval_lookups val (k (Inr w)) = Inr v" and p: "propagating (k (Inr w))" by blast
  have "eval_lookups val' (k (Inr w)) = Inr v" by (rule Getitem.IH[OF rangeI p e])
  with assms[OF w] show ?case by simp
qed

lemma without_handlersD: "without_handlers ups s \<Longrightarrow> map_of ups k = Some f \<Longrightarrow> propagating (f s)"
  by (auto simp: without_handlers_def dest: map_of_SomeD)

lemma updater_value_Suc:
  assumes wh: "without_handlers ups s"
  shows "updater_value n ups s k = Inr v \<Longrightarrow> updater_value (Suc n) ups s k = Inr v"
proof (induction n arbitrary: k v)
  case 0 then show ?case by simp
next
  case (Suc n)
  from Suc.prems obtain f where f: "map_of ups k = Some f"
    and e: "eval_lookups (updater_value n ups s) (f s) = Inr v"
    by (cases "map_of ups k") simp_all
  have "eval_lookups (updater_value (Suc n) ups s) (f s) = Inr v"
    using Suc.IH without_handlersD[OF wh f] e by (rule eval_lookups_mono)
  with f show ?case by simp
qed

lemma updater_value_mono:
  assumes "without_handlers ups s"
  shows "n \<le> m \<Longrightarrow> updater_value n ups s k = Inr v \<Longrightarrow> updater_value m ups s k = Inr v"
  by (induction rule: dec_induct) (simp_all add: updater_value_Suc[OF assms] del: updater_value.simps)

lemma updater_value_det:
  assumes "without_handlers ups s"
    and "updater_value n ups s k = Inr v" and "updater_value m ups s k = Inr w"
  shows "v = w"
proof -
  have "updater_value (max n m) ups s k = Inr v"
    by (rule updater_value_mono[OF assms(1) max.cobounded1 assms(2)])
  moreover have "updater_value (max n m) ups s k = Inr w"
    by (rule updater_value_mono[OF assms(1) max.cobounded2 assms(3)])
  ultimately show ?thesis by simp
qed

lemma eval_updater_value_mono:
  "without_handlers ups s \<Longrightarrow> propagating p \<Longrightarrow> n \<le> m \<Longrightarrow>
     eval_lookups (updater_value n ups s) p = Inr v \<Longrightarrow>
     eval_lookups (updater_value m ups s) p = Inr v"
  by (rule eval_lookups_mono[of "updater_value n ups s" "updater_value m ups s"])
     (auto intro: updater_value_mono)

text \<open>Running an updater, a call and a lookup keep the invariants.\<close>

lemma map_of_keys': "(k \<in> keys d) = (\<exists>v. map_of d k = Some v)"
  using map_of_keys[of d k] by auto

lemma run_updater_accounted:
  assumes LP: "\<And>key st r st'. sound_cache ups s (memo_cache st) \<Longrightarrow> look key st = (r, st') \<Longrightarrow>
     (\<exists>new. accounted ups s (\<lambda>M. updater_value M ups s key) st r st' new) \<and>
     (\<forall>v. r = Inr v \<longrightarrow> map_of (memo_cache st') key = Some v)"
    and wh: "without_handlers ups s"
  shows "propagating p \<Longrightarrow> sound_cache ups s (memo_cache st) \<Longrightarrow> run_updater look p st = (r, st') \<Longrightarrow>
     \<exists>new. accounted ups s (\<lambda>M. eval_lookups (updater_value M ups s) p) st r st' new"
proof (induction p arbitrary: st)
  case (Return r0)
  then have "accounted ups s (\<lambda>M. eval_lookups (updater_value M ups s) (Return r0)) st r st' []"
    by (auto simp: accounted_def)
  then show ?case ..
next
  case (Getitem name k)
  obtain r1 st1 where l: "look name st = (r1, st1)" by (cases "look name st")
  from Getitem.prems(1) have hd: "\<And>e. k (Inl e) = Return (Inl e)"
    and pk: "\<And>v. propagating (k (Inr v))" by simp_all
  from LP[OF Getitem.prems(2) l] obtain new1 where
    a1: "accounted ups s (\<lambda>M. updater_value M ups s name) st r1 st1 new1"
    and m1: "\<forall>v. r1 = Inr v \<longrightarrow> map_of (memo_cache st1) name = Some v" by blast
  from a1 have s1: "sound_cache ups s (memo_cache st1)"
    and log1: "memo_invocations st1 = memo_invocations st @ new1"
    and pres1: "\<forall>k \<in> keys (memo_cache st). map_of (memo_cache st1) k = map_of (memo_cache st) k"
    by (simp_all add: accounted_def)
  show ?case
  proof (cases r1)
    case (Inl e)
    with Getitem.prems(3) l hd have "r = Inl e" "st' = st1" by simp_all
    with s1 log1 pres1
    have "accounted ups s (\<lambda>M. eval_lookups (updater_value M ups s) (Getitem name k)) st r st' new1"
      by (simp add: accounted_def)
    then show ?thesis ..
  next
    case (Inr v1)
    with Getitem.prems(3) l have run2: "run_updater look (k (Inr v1)) st1 = (r, st')" by simp
    from Getitem.IH[OF rangeI pk s1 run2] obtain new2 where
      a2: "accounted ups s (\<lambda>M. eval_lookups (updater_value M ups s) (k (Inr v1))) st1 r st' new2" by blast
    from a2 have s2: "sound_cache ups s (memo_cache st')"
      and log2: "memo_invocations st' = memo_invocations st1 @ new2"
      and pres2: "\<forall>k \<in> keys (memo_cache st1). map_of (memo_cache st') k = map_of (memo_cache st1) k"
      by (simp_all add: accounted_def)
    from a1 Inr have d1: "distinct new1" and i1: "set new1 \<inter> keys (memo_cache st) = {}"
      and k1: "keys (memo_cache st1) = keys (memo_cache st) \<union> set new1"
      and u1: "set new1 \<subseteq> keys ups"
      and e1: "\<exists>M. updater_value M ups s name = Inr v1"
      and f1: "\<forall>M w. updater_value M ups s name = Inr w \<longrightarrow>
                 (\<forall>k \<in> set new1. \<exists>u. updater_value M ups s k = Inr u)"
      by (simp_all add: accounted_def)
    have log: "memo_invocations st' = memo_invocations st @ (new1 @ new2)"
      using log1 log2 by simp
    have pres: "\<forall>k \<in> keys (memo_cache st). map_of (memo_cache st') k = map_of (memo_cache st) k"
    proof
      fix k0 assume k0: "k0 \<in> keys (memo_cache st)"
      then have "k0 \<in> keys (memo_cache st1)" using k1 by simp
      then have "map_of (memo_cache st') k0 = map_of (memo_cache st1) k0" using pres2 by simp
      then show "map_of (memo_cache st') k0 = map_of (memo_cache st) k0" using pres1 k0 by simp
    qed
    have succ: "distinct (new1 @ new2) \<and> set (new1 @ new2) \<inter> keys (memo_cache st) = {} \<and>
         keys (memo_cache st') = keys (memo_cache st) \<union> set (new1 @ new2) \<and>
         set (new1 @ new2) \<subseteq> keys ups \<and>
         (\<exists>M. eval_lookups (updater_value M ups s) (Getitem name k) = Inr v) \<and>
         (\<forall>M w. eval_lookups (updater_value M ups s) (Getitem name k) = Inr w \<longrightarrow>
            (\<forall>k \<in> set (new1 @ new2). \<exists>u. updater_value M ups s k = Inr u))"
      if rv: "r = Inr v" for v
    proof -
      from a2 rv have d2: "distinct new2" and i2: "set new2 \<inter> keys (memo_cache st1) = {}"
        and k2: "keys (memo_cache st') = keys (memo_cache st1) \<union> set new2"
        and u2: "set new2 \<subseteq> keys ups"
        and e2: "\<exists>M. eval_lookups (updater_value M ups s) (k (Inr v1)) = Inr v"
        and f2: "\<forall>M w. eval_lookups (updater_value M ups s) (k (Inr v1)) = Inr w \<longrightarrow>
                   (\<forall>k \<in> set new2. \<exists>u. updater_value M ups s k = Inr u)"
        by (simp_all add: accounted_def)
      have c1: "distinct (new1 @ new2)" using d1 d2 i2 k1 by auto
      have c2: "set (new1 @ new2) \<inter> keys (memo_cache st) = {}" using i1 i2 k1 by auto
      have c3: "keys (memo_cache st') = keys (memo_cache st) \<union> set (new1 @ new2)"
        using k1 k2 by auto
      have c4: "set (new1 @ new2) \<subseteq> keys ups" using u1 u2 by simp
      from e1 obtain M1 where M1: "updater_value M1 ups s name = Inr v1" by blast
      from e2 obtain M2 where M2: "eval_lookups (updater_value M2 ups s) (k (Inr v1)) = Inr v" by blast
      have "updater_value (max M1 M2) ups s name = Inr v1"
        by (rule updater_value_mono[OF wh max.cobounded1 M1])
      moreover have "eval_lookups (updater_value (max M1 M2) ups s) (k (Inr v1)) = Inr v"
        by (rule eval_updater_value_mono[OF wh pk max.cobounded2 M2])
      ultimately have "eval_lookups (updater_value (max M1 M2) ups s) (Getitem name k) = Inr v"
        by simp
      then have c5: "\<exists>M. eval_lookups (updater_value M ups s) (Getitem name k) = Inr v" ..
      have c6: "\<forall>M w. eval_lookups (updater_value M ups s) (Getitem name k) = Inr w \<longrightarrow>
            (\<forall>k \<in> set (new1 @ new2). \<exists>u. updater_value M ups s k = Inr u)"
      proof (intro allI impI)
        fix M w assume ev: "eval_lookups (updater_value M ups s) (Getitem name k) = Inr w"
        from eval_lookups_Getitem[OF Getitem.prems(1) ev]
        obtain w1 where w1: "updater_value M ups s name = Inr w1"
          and ev2: "eval_lookups (updater_value M ups s) (k (Inr w1)) = Inr w" by blast
        have "w1 = v1" by (rule updater_value_det[OF wh w1 M1])
        with ev2 have "eval_lookups (updater_value M ups s) (k (Inr v1)) = Inr w" by simp
        with f2 have "\<forall>k \<in> set new2. \<exists>u. updater_value M ups s k = Inr u" by blast
        moreover from f1 w1 have "\<forall>k \<in> set new1. \<exists>u. updater_value M ups s k = Inr u" by blast
        ultimately show "\<forall>k \<in> set (new1 @ new2). \<exists>u. updater_value M ups s k = Inr u" by auto
      qed
      from c1 c2 c3 c4 c5 c6 show ?thesis by blast
    qed
    have "accounted ups s (\<lambda>M. eval_lookups (updater_value M ups s) (Getitem name k)) st r st' (new1 @ new2)"
      unfolding accounted_def using s2 log pres succ by blast
    then show ?thesis ..
  qed
qed

lemma call_updater_accounted:
  assumes LP: "\<And>key st r st'. sound_cache ups s (memo_cache st) \<Longrightarrow> look key st = (r, st') \<Longrightarrow>
     (\<exists>new. accounted ups s (\<lambda>M. updater_value M ups s key) st r st' new) \<and>
     (\<forall>v. r = Inr v \<longrightarrow> map_of (memo_cache st') key = Some v)"
    and ci: "cache_independent ups s" and wh: "without_handlers ups s"
    and snd: "sound_cache ups s (memo_cache st)"
    and miss: "key \<notin> keys (memo_cache st)"
    and call: "call_updater look ups s key st = (r, st')"
  shows "(\<exists>new. accounted ups s (\<lambda>M. updater_value M ups s key) st r st' new) \<and>
     (\<forall>v. r = Inr v \<longrightarrow> map_of (memo_cache st') key = Some v)"
proof (cases "map_of ups key")
  case None
  with call have "r = Inl (KeyError_name key)" "st' = st" by (simp_all add: call_updater_def)
  with snd have "accounted ups s (\<lambda>M. updater_value M ups s key) st r st' []"
    by (simp add: accounted_def)
  with \<open>r = Inl (KeyError_name key)\<close> show ?thesis by blast
next
  case (Some f)
  then have "(key, f) \<in> set ups" by (rule map_of_SomeD)
  with ci have pure: "f (set_cache s (memo_cache st)) = f s" by (auto simp: cache_independent_def)
  have reg: "key \<in> keys ups" using \<open>(key, f) \<in> set ups\<close> by (force simp: keys_def)
  let ?st0 = "st\<lparr>memo_invocations := memo_invocations st @ [key]\<rparr>"
  obtain r2 st2 where run: "run_updater look (f s) ?st0 = (r2, st2)"
    by (cases "run_updater look (f s) ?st0")
  have snd0: "sound_cache ups s (memo_cache ?st0)" using snd by simp
  have pf: "propagating (f s)" by (rule without_handlersD[OF wh Some])
  from run_updater_accounted[of ups s look, OF LP wh pf snd0 run] obtain new2 where
    a2: "accounted ups s (\<lambda>M. eval_lookups (updater_value M ups s) (f s)) ?st0 r2 st2 new2" by blast
  from a2 have s2: "sound_cache ups s (memo_cache st2)"
    and log2: "memo_invocations st2 = memo_invocations st @ (key # new2)"
    and pres2: "\<forall>k \<in> keys (memo_cache st). map_of (memo_cache st2) k = map_of (memo_cache st) k"
    by (simp_all add: accounted_def)
  show ?thesis
  proof (cases r2)
    case (Inl e)
    with call Some pure run have "r = Inl e" "st' = st2" by (simp_all add: call_updater_def)
    with s2 log2 pres2 have "accounted ups s (\<lambda>M. updater_value M ups s key) st r st' (key # new2)"
      by (simp add: accounted_def)
    with \<open>r = Inl e\<close> show ?thesis by blast
  next
    case (Inr v)
    with call Some pure run have r: "r = Inr v"
      and st': "st' = st2\<lparr>memo_cache := AList.update key v (memo_cache st2)\<rparr>"
      by (simp_all add: call_updater_def)
    from a2 Inr have d2: "distinct new2" and i2: "set new2 \<inter> keys (memo_cache st) = {}"
      and k2: "keys (memo_cache st2) = keys (memo_cache st) \<union> set new2"
      and u2: "set new2 \<subseteq> keys ups"
      and e2: "\<exists>M. eval_lookups (updater_value M ups s) (f s) = Inr v"
      and f2: "\<forall>M w. eval_lookups (updater_value M ups s) (f s) = Inr w \<longrightarrow>
                 (\<forall>k \<in> set new2. \<exists>u. updater_value M ups s k = Inr u)"
      by (simp_all add: accounted_def)
    from e2 obtain M where M: "eval_lookups (updater_value M ups s) (f s) = Inr v" by blast
    then have val: "updater_value (Suc M) ups s key = Inr v" using Some by simp
    have step: "\<exists>M'. M0 = Suc M' \<and> eval_lookups (updater_value M' ups s) (f s) = Inr w"
      if "updater_value M0 ups s key = Inr w" for M0 w
      using that Some by (cases M0) simp_all
    have below: "\<forall>k \<in> set new2. \<exists>u. updater_value M0 ups s k = Inr u"
      if "updater_value M0 ups s key = Inr w" for M0 w
    proof -
      from step[OF that] obtain M' where M': "M0 = Suc M'"
        and ev: "eval_lookups (updater_value M' ups s) (f s) = Inr w" by blast
      from f2 ev have "\<forall>k \<in> set new2. \<exists>u. updater_value M' ups s k = Inr u" by blast
      then show ?thesis unfolding M' by (blast intro: updater_value_Suc[OF wh])
    qed
    have fresh: "key \<notin> set new2"
    proof
      assume in2: "key \<in> set new2"
      define L where "L = (LEAST M0. \<exists>w. updater_value M0 ups s key = Inr w)"
      have "\<exists>w. updater_value L ups s key = Inr w"
        unfolding L_def by (rule LeastI[of "\<lambda>M0. \<exists>w. updater_value M0 ups s key = Inr w" "Suc M"])
          (use val in blast)
      then obtain w where w: "updater_value L ups s key = Inr w" ..
      from step[OF w] obtain M' where M': "L = Suc M'"
        and ev: "eval_lookups (updater_value M' ups s) (f s) = Inr w" by blast
      from f2 ev in2 have "\<exists>u. updater_value M' ups s key = Inr u" by blast
      then have "L \<le> M'" unfolding L_def by (rule Least_le)
      with M' show False by simp
    qed
    have snd': "sound_cache ups s (memo_cache st')"
      unfolding sound_cache_def
    proof (intro allI impI)
      fix k0 v0 assume "map_of (memo_cache st') k0 = Some v0"
      then have "(k0 = key \<and> v0 = v) \<or> map_of (memo_cache st2) k0 = Some v0"
        unfolding st' by (simp add: update_conv' split: if_splits)
      then show "\<exists>n. updater_value n ups s k0 = Inr v0"
        using val s2 unfolding sound_cache_def by blast
    qed
    have log: "memo_invocations st' = memo_invocations st @ (key # new2)"
      using log2 st' by simp
    have pres: "\<forall>k \<in> keys (memo_cache st). map_of (memo_cache st') k = map_of (memo_cache st) k"
      using pres2 miss unfolding st' by (auto simp: update_conv')
    have c1: "distinct (key # new2)" using d2 fresh by simp
    have c2: "set (key # new2) \<inter> keys (memo_cache st) = {}" using i2 miss by simp
    have c3: "keys (memo_cache st') = keys (memo_cache st) \<union> set (key # new2)"
      using k2 unfolding st' by (auto simp: keys_def dom_update)
    have c4: "set (key # new2) \<subseteq> keys ups" using u2 reg by simp
    have c5: "\<exists>M. updater_value M ups s key = Inr v" using val ..
    have c6: "\<forall>M0 w. updater_value M0 ups s key = Inr w \<longrightarrow>
            (\<forall>k \<in> set (key # new2). \<exists>u. updater_value M0 ups s k = Inr u)"
      using below by auto
    have "accounted ups s (\<lambda>M. updater_value M ups s key) st r st' (key # new2)"
      unfolding accounted_def using snd' log pres c1 c2 c3 c4 c5 c6 r by blast
    moreover have "map_of (memo_cache st') key = Some v" unfolding st' by (simp add: update_conv')
    ultimately show ?thesis using r by blast
  qed
qed

lemma Partition_getitem_reentrant_accounted:
  assumes ci: "cache_independent ups s" and wh: "without_handlers ups s"
  shows "sound_cache ups s (memo_cache st) \<Longrightarrow> Partition_getitem_reentrant d ups s key st = (r, st') \<Longrightarrow>
     (\<exists>new. accounted ups s (\<lambda>M. updater_value M ups s key) st r st' new) \<and>
     (\<forall>v. r = Inr v \<longrightarrow> map_of (memo_cache st') key = Some v)"
proof (induction d arbitrary: key st r st')
  case 0
  then have "accounted ups s (\<lambda>M. updater_value M ups s key) st r st' []"
    by (auto simp: accounted_def)
  with 0 show ?case by auto
next
  case (Suc d)
  show ?case
  proof (cases "map_of (memo_cache st) key")
    case None
    then have miss: "key \<notin> keys (memo_cache st)" by (simp add: map_of_keys)
    from Suc.prems(2) None
    have call: "call_updater (Partition_getitem_reentrant d ups s) ups s key st = (r, st')" by simp
    show ?thesis
      by (rule call_updater_accounted[of ups s "Partition_getitem_reentrant d ups s", OF Suc.IH ci wh Suc.prems(1) miss call])
  next
    case (Some v)
    with Suc.prems(2) have r: "r = Inr v" "st' = st" by simp_all
    from Suc.prems(1) Some have "\<exists>M. updater_value M ups s key = Inr v"
      by (simp add: sound_cache_def)
    with Suc.prems(1) r have "accounted ups s (\<lambda>M. updater_value M ups s key) st r st' []"
      by (simp add: accounted_def)
    with r Some show ?thesis by blast
  qed
qed

lemma Partition_update_reentrant_loop_ok:
  assumes ci: "cache_independent ups s" and wh: "without_handlers ups s"
  shows "memo_ok ups s st \<Longrightarrow> Partition_update_reentrant_loop d ups s ks st = Inr st' \<Longrightarrow>
     memo_ok ups s st' \<and> set ks \<subseteq> keys (memo_cache st') \<and> keys (memo_cache st) \<subseteq> keys (memo_cache st')"
proof (induction ks arbitrary: st)
  case Nil then show ?case by simp
next
  case (Cons key rest)
  show ?case
  proof (cases "key \<in> keys (memo_cache st)")
    case True
    with Cons.prems(2) have "Partition_update_reentrant_loop d ups s rest st = Inr st'" by simp
    from Cons.IH[OF Cons.prems(1) this] True show ?thesis by auto
  next
    case False
    obtain r st1 where call: "call_updater (Partition_getitem_reentrant d ups s) ups s key st = (r, st1)"
      by (cases "call_updater (Partition_getitem_reentrant d ups s) ups s key st")
    from Cons.prems(2) False call obtain v where r: "r = Inr v"
      and rest: "Partition_update_reentrant_loop d ups s rest st1 = Inr st'"
      by (cases r) simp_all
    from Cons.prems(1) have snd: "sound_cache ups s (memo_cache st)"
      and dl: "distinct (memo_invocations st)"
      and sl: "set (memo_invocations st) = keys (memo_cache st)"
      and ku: "keys (memo_cache st) \<subseteq> keys ups"
      by (simp_all add: memo_ok_def)
    have LP: "\<And>key st r st'. sound_cache ups s (memo_cache st) \<Longrightarrow>
        Partition_getitem_reentrant d ups s key st = (r, st') \<Longrightarrow>
        (\<exists>new. accounted ups s (\<lambda>M. updater_value M ups s key) st r st' new) \<and>
        (\<forall>v. r = Inr v \<longrightarrow> map_of (memo_cache st') key = Some v)"
      by (rule Partition_getitem_reentrant_accounted[OF ci wh])
    from call_updater_accounted[of ups s "Partition_getitem_reentrant d ups s", OF LP ci wh snd False call]
    obtain new where a: "accounted ups s (\<lambda>M. updater_value M ups s key) st r st1 new"
      and m: "map_of (memo_cache st1) key = Some v" using r by blast
    from a r have s1: "sound_cache ups s (memo_cache st1)"
      and log1: "memo_invocations st1 = memo_invocations st @ new"
      and d1: "distinct new" and i1: "set new \<inter> keys (memo_cache st) = {}"
      and k1: "keys (memo_cache st1) = keys (memo_cache st) \<union> set new"
      and u1: "set new \<subseteq> keys ups"
      by (simp_all add: accounted_def)
    have ok1: "memo_ok ups s st1"
      unfolding memo_ok_def using s1 log1 d1 i1 k1 u1 dl sl ku by auto
    have "key \<in> keys (memo_cache st1)" using m by (auto simp: map_of_keys')
    with Cons.IH[OF ok1 rest] k1 show ?thesis by auto
  qed
qed

lemma Partition_update_reentrant_ok:
  assumes "cache_independent ups s" and "without_handlers ups s"
    and "Partition_update_reentrant d ups s = Inr st"
  shows "distinct (memo_invocations st)" and "set (memo_invocations st) = keys ups"
    and "keys (memo_cache st) = keys ups"
proof -
  let ?st0 = "\<lparr>memo_cache = [], memo_invocations = []\<rparr> :: 'd memo"
  have ok0: "memo_ok ups s ?st0" by (simp add: memo_ok_def sound_cache_def keys_def)
  from assms(3) have "Partition_update_reentrant_loop d ups s (map fst ups) ?st0 = Inr st"
    by (simp add: Partition_update_reentrant_def)
  from Partition_update_reentrant_loop_ok[OF assms(1,2) ok0 this]
  have ok: "memo_ok ups s st" and sub: "set (map fst ups) \<subseteq> keys (memo_cache st)" by simp_all
  from sub have "keys ups \<subseteq> keys (memo_cache st)" by (simp add: keys_def)
  with ok show "keys (memo_cache st) = keys ups" by (auto simp: memo_ok_def)
  with ok show "set (memo_invocations st) = keys ups" by (simp add: memo_ok_def)
  from ok show "distinct (memo_invocations st)" by (simp add: memo_ok_def)
qed

text \<open>With updaters that make no lookup, the model is \<open>Partition_update\<close>.\<close>

lemma Partition_update_reentrant_loop_refines:
  "Partition_update_reentrant_loop d (map (\<lambda>(key, f). (key, \<lambda>p. Return (f p))) U) s ks
       \<lparr>memo_cache = c, memo_invocations = l\<rparr> =
   (case Partition_update_loop ks (Partition (set_cache s c) U l) of
      Inl e \<Rightarrow> Inl e
    | Inr P \<Rightarrow> Inr \<lparr>memo_cache = cache (state P), memo_invocations = invocations P\<rparr>)"
proof (induction ks arbitrary: c l)
  case Nil then show ?case by simp
next
  case (Cons key rest)
  have m: "map_of (map (\<lambda>(key, f). (key, \<lambda>p. Return (f p))) U) key =
           map_option (\<lambda>f p. Return (f p)) (map_of U key)"
    by (induction U) auto
  show ?case
  proof (cases "key \<in> keys c")
    case True
    then show ?thesis using Cons.IH[of c l] by simp
  next
    case False
    show ?thesis
    proof (cases "map_of U key")
      case None
      with False m show ?thesis by (simp add: call_updater_def)
    next
      case (Some f)
      show ?thesis
      proof (cases "f (set_cache s c)")
        case (Inl e)
        with False m Some show ?thesis by (simp add: call_updater_def)
      next
        case (Inr v)
        with False m Some show ?thesis
          using Cons.IH[of "AList.update key v c" "l @ [key]"]
          by (simp add: call_updater_def)
      qed
    qed
  qed
qed

lemma map_fst_map_snd: "map fst (map (\<lambda>(key, f). (key, g f)) U) = map fst U"
  by (induction U) auto

lemma Partition_update_reentrant_refines:
  assumes "invocations P = []"
  shows "Partition_update_reentrant d (map (\<lambda>(key, f). (key, \<lambda>p. Return (f p))) (updaters P)) (state P) =
   (case Partition_update P of
      Inl e \<Rightarrow> Inl e
    | Inr P' \<Rightarrow> Inr \<lparr>memo_cache = cache (state P'), memo_invocations = invocations P'\<rparr>)"
proof -
  let ?ups = "map (\<lambda>(key, f). (key, \<lambda>p. Return (f p))) (updaters P)"
  have mf: "map fst ?ups = map fst (updaters P)" by (rule map_fst_map_snd)
  have "Partition_update_reentrant d ?ups (state P) =
      Partition_update_reentrant_loop d ?ups (state P) (map fst (updaters P))
        \<lparr>memo_cache = [], memo_invocations = []\<rparr>"
    unfolding Partition_update_reentrant_def mf ..
  also have "\<dots> = (case Partition_update_loop (map fst (updaters P))
                          (Partition (set_cache (state P) []) (updaters P) []) of
      Inl e \<Rightarrow> Inl e
    | Inr P' \<Rightarrow> Inr \<lparr>memo_cache = cache (state P'), memo_invocations = invocations P'\<rparr>)"
    by (rule Partition_update_reentrant_loop_refines)
  finally show ?thesis unfolding Partition_update_def assms .
qed

section \<open>Partition: construction and the updater cache\<close>

lemma first_time_Inr:
  assumes "first_time g a u = Inr P"
  shows "invocations P = []" and "graph (state P) = g"
    and "get_assignment a g = Inr (assignment (state P))"
    and "updaters P = dict_update default_updaters (case u of None \<Rightarrow> [] | Some x \<Rightarrow> x)"
    and "partition_parts (state P) = PartsDict (level_sets (items (assignment (state P))))"
    and "parent (state P) = None"
  using assms by (auto simp: first_time_def split: sum.splits)

lemma Partition_init_cases:
  assumes "Partition_init cef g a u par fl = Inr P"
  shows "\<exists>P0 P1. invocations P0 = [] \<and> Partition_update P0 = Inr P1 \<and>
           cache (state P) = cache (state P1) \<and> updaters P = updaters P1 \<and> invocations P = invocations P1 \<and>
           assignment (state P) = assignment (state P1) \<and> graph (state P) = graph (state P1) \<and>
           ((\<exists>q. par = Some q \<and> Partition_len q \<noteq> 0 \<and> from_parent cef q fl = Inr P0 \<and> P = P1) \<or>
            (\<not> truthy par \<and> first_time g a u = Inr P0 \<and>
               (\<exists>d. partition_parts (state P1) = PartsDict d \<and> partition_parts (state P) = PartsTuple (map fst d))))"
proof (cases "truthy par")
  case True
  then obtain q where q: "par = Some q" "Partition_len q \<noteq> 0"
    by (auto simp: truthy_def split: option.splits)
  with assms True obtain P0 where P0: "from_parent cef q fl = Inr P0" "Partition_update P0 = Inr P"
    by (auto simp: Partition_init_def split: sum.splits)
  have "invocations P0 = []" using from_parent_Inr(6)[OF P0(1)] .
  with q P0 show ?thesis by blast
next
  case False
  with assms obtain P0 P1 d where P0: "first_time g a u = Inr P0" "Partition_update P0 = Inr P1"
    "partition_parts (state P1) = PartsDict d"
    "P = Partition (set_parts (state P1) (PartsTuple (map fst d))) (updaters P1) (invocations P1)"
    by (auto simp: Partition_init_def split: sum.splits parts_value.splits)
  have "invocations P0 = []" using first_time_Inr(1)[OF P0(1)] .
  with False P0 show ?thesis by auto
qed

lemma count_list_distinct: "distinct xs \<Longrightarrow> count_list xs x = (if x \<in> set xs then 1 else 0)"
  by (induction xs) auto

lemma Partition_init_cache_keys:
  assumes "Partition_init cef g a u par fl = Inr P"
  shows "keys (cache (state P)) = keys (updaters P)"
proof -
  from Partition_init_cases[OF assms] obtain P0 P1 where
    i: "invocations P0 = []" and u: "Partition_update P0 = Inr P1"
    and e: "cache (state P) = cache (state P1)" "updaters P = updaters P1"
    by blast
  from Partition_update_Inr(2,5)[OF u i] e show ?thesis by simp
qed

lemma Partition_getitem_unregistered:
  assumes "Partition_init cef g a u par fl = Inr P" and "name \<notin> keys (updaters P)"
  shows "Partition_getitem P name = Inl (KeyError_name name)"
proof -
  have "name \<notin> keys (cache (state P))" using Partition_init_cache_keys[OF assms(1)] assms(2) by simp
  then have "map_of (cache (state P)) name = None" by (simp add: map_of_keys)
  moreover have "map_of (updaters P) name = None" using assms(2) by (simp add: map_of_keys)
  ultimately show ?thesis by (simp add: Partition_getitem_def)
qed

lemma scenario_root_crosses:
  "crosses_parts scenario_root (2, 3) = Inr True"
  "crosses_parts scenario_root (1, 2) = Inr False"
  "crosses_parts scenario_root (3, 4) = Inr False"
  by (simp_all add: crosses_parts_def scenario_root_def Assignment_getitem_def)

lemma scenario_merge_assignment:
  assumes "merge cef P [(2, ''B'')] = Inr child"
    and "assignment (state P) = Assignment [(''A'', {2, 1::int}), (''B'', {4, 3})] PlainDict"
  shows "assignment (state child) = Assignment [(''A'', {1}), (''B'', {2, 3, 4})] PlainDict"
  using merge_Inr_fields(1)[OF assms(1)] assms(2) by (simp add: update_scenario)

lemma merge_cache:
  assumes "merge cef P D = Inr child" and "updaters P = [(name, f)]"
  shows "\<exists>s v. f s = Inr v \<and> assignment s = assignment (state child) \<and> partition_parts s = partition_parts (state child)
     \<and> cache (state child) = [(name, v)] \<and> invocations child = [name]"
proof -
  from merge_Inr(2)[OF assms(1)] obtain C0 where c0: "from_parent cef P (Some D) = Inr C0"
    and u: "Partition_update C0 = Inr child" by blast
  note fp = from_parent_Inr[OF c0]
  have up: "updaters C0 = [(name, f)]" using fp(5) assms(2) by simp
  let ?s = "set_cache (state C0) []"
  from u up fp(6) obtain v where v: "f ?s = Inr v"
    and ch: "child = Partition (set_cache ?s [(name, v)]) [(name, f)] [name]"
    by (auto simp: Partition_update_def keys_def split: sum.splits)
  show ?thesis using v ch by (intro exI[of _ ?s] exI[of _ v]) simp
qed

lemma assignment_size_child_merge:
  "merge no_edge_flows assignment_size_root [(2, ''B'')] = Inr assignment_size_child"
  apply (simp add: merge_def Partition_init_def truthy_def Partition_len_def assignment_size_root_def from_parent_def copy_def
     update_scenario)
  apply (simp add: flows_from_changes_def Assignment_getitem_def defaultdict_get_def create_flow_def Let_def no_edge_flows_def
     Partition_update_def set_cache_def set_edge_flows_def assignment_size_child_def assignment_size_root_def keys_def
     assignment_size_def)
  done

section \<open>The partition invariant along a chain of merges\<close>

lemma root_fields:
  assumes "Partition_init cef g (Dict m) u None None = Inr P"
  shows "assignment (state P) = from_dict m" and "graph (state P) = g"
proof -
  have nt: "\<not> truthy (None :: ('a, 'b, 'c, 'd) Partition option)" by (simp add: truthy_def)
  from assms nt obtain P0 where f: "first_time g (Dict m) u = Inr P0"
    by (cases "first_time g (Dict m) u :: ('a, 'b) error + ('a, 'b, 'c, 'd) Partition") (simp_all add: Partition_init_def)
  from assms nt f obtain P1 where u: "Partition_update P0 = Inr P1"
    by (cases "Partition_update P0") (simp_all add: Partition_init_def)
  from assms nt f u obtain d where d: "partition_parts (state P1) = PartsDict d"
    and P: "P = Partition (set_parts (state P1) (PartsTuple (map fst d))) (updaters P1) (invocations P1)"
    by (cases "partition_parts (state P1)") (simp_all add: Partition_init_def)
  have i: "invocations P0 = []" by (rule first_time_Inr(1)[OF f])
  note sel = set_cache_eq_sel[OF Partition_update_Inr(1)[OF u i, of "[]"]]
  have a0: "assignment (state P0) = from_dict m" using first_time_Inr(3)[OF f] by (simp add: get_assignment_def)
  show "assignment (state P) = from_dict m" using a0 sel(2) P by simp
  show "graph (state P) = g" using first_time_Inr(2)[OF f] sel(1) P by simp
qed

lemma member_of_Union: "is_dict ps \<Longrightarrow> (n \<in> \<Union> (snd ` set ps)) = (\<exists>p. member_of ps n p)"
proof -
  assume d: "is_dict ps"
  have "(n \<in> \<Union> (snd ` set ps)) = (\<exists>p s. (p, s) \<in> set ps \<and> n \<in> s)"
  proof
    assume "n \<in> \<Union> (snd ` set ps)"
    then obtain x where "x \<in> set ps" "n \<in> snd x" by blast
    then have "(fst x, snd x) \<in> set ps \<and> n \<in> snd x" by simp
    then show "\<exists>p s. (p, s) \<in> set ps \<and> n \<in> s" by blast
  next
    assume "\<exists>p s. (p, s) \<in> set ps \<and> n \<in> s"
    then obtain p s where "(p, s) \<in> set ps" "n \<in> s" by blast
    then have "s \<in> snd ` set ps" by force
    with \<open>n \<in> s\<close> show "n \<in> \<Union> (snd ` set ps)" by blast
  qed
  then show ?thesis using member_of_set[OF d] by simp
qed

lemma update_covers:
  assumes u: "update a D = Inr a'" and dp: "disjoint_parts (parts a)" and dd: "is_dict D"
  shows "\<Union> (snd ` set (parts a)) \<subseteq> \<Union> (snd ` set (parts a'))"
proof
  fix n assume "n \<in> \<Union> (snd ` set (parts a))"
  then obtain p where "member_of (parts a) n p"
    using member_of_Union[of "parts a" n] dp by (auto simp: disjoint_parts_def)
  then have g: "Assignment_getitem a n = Inr p" using dp by (simp add: getitem_member)
  have "\<exists>q. new_part a D n = Inr q"
    using g by (cases "map_of D n") (simp_all add: new_part_def)
  then obtain q where "member_of (parts a') n q" using update_member[OF u dp dd] by blast
  moreover have "is_dict (parts a')" using update_disjoint[OF u dp dd] by (simp add: disjoint_parts_def)
  ultimately show "n \<in> \<Union> (snd ` set (parts a'))" using member_of_Union[of "parts a'" n] by blast
qed

lemma pairwise_disjoint_filter:
  "pairwise_disjoint ss \<Longrightarrow> length (filter (\<lambda>s. n \<in> s) ss) = (if n \<in> \<Union> (set ss) then 1 else 0)"
proof (induction ss)
  case Nil then show ?case by simp
next
  case (Cons s ss)
  then have IH: "length (filter (\<lambda>s. n \<in> s) ss) = (if n \<in> \<Union> (set ss) then 1 else 0)" by simp
  from Cons.prems have d: "\<forall>t \<in> set ss. s \<inter> t = {}" by simp
  show ?case
  proof (cases "n \<in> s")
    case True
    then have "n \<notin> \<Union> (set ss)" using d by auto
    then show ?thesis using True IH by simp
  next
    case False then show ?thesis using IH by simp
  qed
qed

lemma containing_parts_length:
  assumes "disjoint_parts ps"
  shows "length (containing_parts ps n) = (if n \<in> \<Union> (snd ` set ps) then 1 else 0)"
proof -
  have "length (containing_parts ps n) = length (filter (\<lambda>s. n \<in> s) (map snd ps))"
    unfolding containing_parts_def by (induction ps) auto
  then show ?thesis using pairwise_disjoint_filter[of "map snd ps" n] assms
    by (simp add: disjoint_parts_def)
qed

lemma merge_partition_ok:
  assumes m: "merge cef P d = Inr P'" and dd: "is_dict d" and ok: "partition_ok P N g"
  shows "partition_ok P' N g"
proof -
  note u = merge_Inr_fields(1)[OF m]
  from ok have dp: "disjoint_parts (parts (assignment (state P)))"
    and c: "N \<subseteq> \<Union> (snd ` set (parts (assignment (state P))))"
    and g: "graph (state P) = g"
    unfolding partition_ok_def by simp_all
  have a: "disjoint_parts (parts (assignment (state P')))" by (rule update_disjoint[OF u dp dd])
  have b: "N \<subseteq> \<Union> (snd ` set (parts (assignment (state P'))))"
    by (rule order_trans[OF c update_covers[OF u dp dd]])
  have "graph (state P') = g" using merge_Inr_fields(2)[OF m] g by simp
  with a b show ?thesis unfolding partition_ok_def by simp
qed

lemma merge_chain_partition_ok:
  "merge_chain cef P ds = Inr Q \<Longrightarrow> \<forall>d \<in> set ds. is_dict d \<Longrightarrow> partition_ok P N g \<Longrightarrow>
     partition_ok Q N g"
proof (induction ds arbitrary: P)
  case Nil then show ?case by simp
next
  case (Cons d ds)
  from Cons.prems(1) obtain P' where m: "merge cef P d = Inr P'" and r: "merge_chain cef P' ds = Inr Q"
    by (cases "merge cef P d") simp_all
  have dd: "is_dict d" and ds: "\<forall>d \<in> set ds. is_dict d" using Cons.prems(2) by simp_all
  show ?case by (rule Cons.IH[OF r ds merge_partition_ok[OF m dd Cons.prems(3)]])
qed

text \<open>When does \<open>merge\<close> return? The parent must pass the test \<^verbatim>\<open>if parent:\<close>, the delta must
  name nodes that are in some part and parts that are keys, and the edge-flow computation
  and the updaters must return. A parent of length zero sends \<open>merge\<close> down the root
  path with every argument \<^verbatim>\<open>None\<close>.\<close>

lemma Partition_update_loop_total:
  assumes "\<forall>k \<in> set ks. \<exists>f. map_of (updaters P) k = Some f \<and> (\<forall>s. \<exists>v. f s = Inr v)"
  shows "\<exists>P'. Partition_update_loop ks P = Inr P'"
  using assms
proof (induction ks arbitrary: P)
  case Nil then show ?case by simp
next
  case (Cons k ks)
  show ?case
  proof (cases "k \<in> keys (cache (state P))")
    case True
    have "\<exists>P'. Partition_update_loop ks P = Inr P'" by (rule Cons.IH) (use Cons.prems in simp)
    then show ?thesis using True by simp
  next
    case False
    from Cons.prems obtain f where f: "map_of (updaters P) k = Some f" "\<forall>s. \<exists>v. f s = Inr v" by auto
    then obtain v where v: "f (state P) = Inr v" by blast
    let ?P1 = "Partition (set_cache (state P) (AList.update k v (cache (state P))))
                       (updaters P) (invocations P @ [k])"
    have "\<exists>P'. Partition_update_loop ks ?P1 = Inr P'" by (rule Cons.IH) (use Cons.prems in simp)
    then show ?thesis using False f(1) v by simp
  qed
qed

lemma Partition_update_total:
  assumes "\<forall>(k, f) \<in> set (updaters P). \<forall>s. \<exists>v. f s = Inr v" and "is_dict (updaters P)"
  shows "\<exists>P'. Partition_update P = Inr P'"
  unfolding Partition_update_def
proof (rule Partition_update_loop_total)
  let ?P0 = "Partition (set_cache (state P) []) (updaters P) (invocations P)"
  show "\<forall>k \<in> set (map fst (updaters P)). \<exists>f. map_of (updaters ?P0) k = Some f \<and> (\<forall>s. \<exists>v. f s = Inr v)"
  proof
    fix k assume "k \<in> set (map fst (updaters P))"
    then obtain f where kf: "(k, f) \<in> set (updaters P)" by auto
    then have "map_of (updaters P) k = Some f" using assms(2) by (simp add: is_dict_map_of)
    moreover have "\<forall>s. \<exists>v. f s = Inr v" using assms(1) kf by auto
    ultimately show "\<exists>f. map_of (updaters ?P0) k = Some f \<and> (\<forall>s. \<exists>v. f s = Inr v)" by simp
  qed
qed

lemma merge_returns:
  assumes "Partition_len P \<noteq> 0"
    and "\<forall>(n, t) \<in> set D. (\<exists>p. Assignment_getitem (assignment (state P)) n = Inr p) \<and>
                              (parts_class (assignment (state P)) = PlainDict \<longrightarrow>
                               t \<in> keys (parts (assignment (state P))))"
    and "\<forall>s. \<exists>ef. cef s = Inr ef"
    and "\<forall>(k, f) \<in> set (updaters P). \<forall>s. \<exists>v. f s = Inr v" and "is_dict (updaters P)"
  shows "\<exists>C. merge cef P D = Inr C"
proof -
  let ?a = "assignment (state P)"
  from update_total[OF assms(2)] obtain a' where u: "update ?a D = Inr a'" by blast
  then obtain fw where fw: "flows_from_changes ?a D = Inr fw"
    by (cases "flows_from_changes ?a D") (simp_all add: update_def)
  let ?self0 = "PState (graph (state P)) a' (Some (state P)) (Some D) (Some fw) None
                  (partition_parts (state P)) []"
  from assms(3) obtain ef where ef: "cef ?self0 = Inr ef" by blast
  let ?C0 = "Partition (set_edge_flows ?self0 (Some ef)) (updaters P) []"
  have fp: "from_parent cef P (Some D) = Inr ?C0"
    using u fw ef by (simp add: from_parent_def copy_def Let_def)
  have "\<exists>C. Partition_update ?C0 = Inr C"
    by (rule Partition_update_total) (use assms(4,5) in simp_all)
  then obtain C where "Partition_update ?C0 = Inr C" by blast
  then have "merge cef P D = Inr C"
    using assms(1) fp by (simp add: merge_def Partition_init_def truthy_def)
  then show ?thesis by blast
qed

lemma merge_empty_parent:
  "Partition_len P = 0 \<Longrightarrow>
     merge cef P D = Inl (TypeError ''Assignment must be a dict or a node attribute key'')"
  by (simp add: merge_def Partition_init_def truthy_def first_time_None)

section \<open>The store model: frame and refinement\<close>

lemma store_set_item_frame:
  "lim (store_set_item st a p X) = lim st + 1"
  "dict_class (store_set_item st a p X) = dict_class st"
  "r < lim st \<Longrightarrow> frozensets (store_set_item st a p X) r = frozensets st r"
  "frozensets (store_set_item st a p X) (lim st) = X"
  "d \<noteq> parts_ref a \<Longrightarrow> dicts (store_set_item st a p X) d = dicts st d"
  "dicts (store_set_item st a p X) (parts_ref a) = AList.update p (lim st) (dicts st (parts_ref a))"
  by (simp_all add: store_set_item_def)

lemma store_apply_flows_frame:
  "store_apply_flows st a fws = (res, st') \<Longrightarrow>
     lim st \<le> lim st' \<and> (\<forall>r < lim st. frozensets st' r = frozensets st r) \<and>
     (\<forall>d. d \<noteq> parts_ref a \<longrightarrow> dicts st' d = dicts st d) \<and> dict_class st' = dict_class st"
proof (induction fws arbitrary: st)
  case Nil then show ?case by simp
next
  case (Cons x rest)
  obtain part f where x: "x = (part, f)" by (cases x)
  show ?case
  proof (cases "map_of (dicts st (parts_ref a)) part")
    case None
    show ?thesis
    proof (cases "dict_class st (parts_ref a)")
      case PlainDict
      with None Cons.prems show ?thesis unfolding x by simp
    next
      case DefaultDictOfSet
      let ?st1 = "store_set_item st a part {}"
      let ?st2 = "store_set_item ?st1 a part (({} - flow_out f) \<union> flow_in f)"
      from Cons.prems None DefaultDictOfSet have "store_apply_flows ?st2 a rest = (res, st')"
        unfolding x by (simp add: Let_def)
      from Cons.IH[OF this] show ?thesis by (simp add: store_set_item_frame)
    qed
  next
    case (Some r)
    let ?st1 = "store_set_item st a part ((frozensets st r - flow_out f) \<union> flow_in f)"
    from Cons.prems Some have "store_apply_flows ?st1 a rest = (res, st')" unfolding x by simp
    from Cons.IH[OF this] show ?thesis by (simp add: store_set_item_frame)
  qed
qed

lemma map_update_values:
  "map (\<lambda>(k, r). (k, f r)) (AList.update k0 v al) = AList.update k0 (f v) (map (\<lambda>(k, r). (k, f r)) al)"
  by (induction al) auto

lemma map_of_map_values: "map_of (map (\<lambda>(k, r). (k, f r)) al) k0 = map_option f (map_of al k0)"
  by (induction al) auto

lemma list_all_update_fresh:
  assumes "list_all (\<lambda>(k, r). r < n) al"
  shows "list_all (\<lambda>(k, r). r < Suc n) (AList.update k0 n al)"
proof -
  have "set (AList.update k0 n al) \<subseteq> insert (k0, n) (set al)" by (induction al) auto
  moreover have "\<forall>x \<in> set al. snd x < n" using assms by (auto simp: list_all_iff)
  ultimately have "\<forall>x \<in> set (AList.update k0 n al). snd x < Suc n" by fastforce
  then show ?thesis by (auto simp: list_all_iff)
qed

lemma map_values_fresh:
  assumes "list_all (\<lambda>(k, r). r < (n::nat)) al"
  shows "map (\<lambda>(k, r). (k, (f(n := v)) r)) al = map (\<lambda>(k, r). (k, f r)) al"
proof (rule map_cong[OF refl])
  fix x assume "x \<in> set al"
  then have "snd x < n" using assms by (auto simp: list_all_iff)
  then show "(case x of (k, r) \<Rightarrow> (k, (f(n := v)) r)) = (case x of (k, r) \<Rightarrow> (k, f r))"
    by (cases x) auto
qed

lemma store_set_item_refines:
  assumes "store_wf st a"
  shows "store_wf (store_set_item st a p X) a"
    and "store_parts (store_set_item st a p X) a = AList.update p X (store_parts st a)"
proof -
  let ?d = "dicts st (parts_ref a)"
  from assms have lt: "list_all (\<lambda>(part, r). r < lim st) ?d" and pa: "parts_ref a < lim st"
    by (simp_all add: store_wf_def)
  have all1: "list_all (\<lambda>(part, r). r < lim st + 1) (AList.update p (lim st) ?d)"
    using list_all_update_fresh[OF lt] by simp
  show "store_wf (store_set_item st a p X) a"
    using pa all1 by (simp add: store_wf_def store_set_item_def)
  have same: "map (\<lambda>(k, r). (k, ((frozensets st)(lim st := X)) r)) ?d = map (\<lambda>(k, r). (k, frozensets st r)) ?d"
    by (rule map_values_fresh[OF lt])
  have "store_parts (store_set_item st a p X) a =
      map (\<lambda>(k, r). (k, ((frozensets st)(lim st := X)) r)) (AList.update p (lim st) ?d)"
    by (simp add: store_parts_def store_set_item_def fun_upd_same del: fun_upd_apply)
  also have "\<dots> = AList.update p (((frozensets st)(lim st := X)) (lim st))
      (map (\<lambda>(k, r). (k, ((frozensets st)(lim st := X)) r)) ?d)"
    by (rule map_update_values)
  also have "\<dots> = AList.update p X (map (\<lambda>(k, r). (k, frozensets st r)) ?d)"
    unfolding same by simp
  finally show "store_parts (store_set_item st a p X) a = AList.update p X (store_parts st a)"
    by (simp add: store_parts_def)
qed

lemma store_apply_flows_refines:
  "store_wf st a \<Longrightarrow> store_apply_flows st a fws = (res, st') \<Longrightarrow>
     store_wf st' a \<and>
     (case apply_flows (dict_class st (parts_ref a)) (store_parts st a) fws of
        Inl e \<Rightarrow> res = Some e
      | Inr ps \<Rightarrow> res = None \<and> store_parts st' a = ps)"
proof (induction fws arbitrary: st)
  case Nil then show ?case by simp
next
  case (Cons x rest)
  obtain part f where x: "x = (part, f)" by (cases x)
  let ?d = "dicts st (parts_ref a)"
  show ?case
  proof (cases "map_of ?d part")
    case None
    then have old: "map_of (store_parts st a) part = None"
      by (simp add: store_parts_def map_of_map_values)
    show ?thesis
    proof (cases "dict_class st (parts_ref a)")
      case PlainDict
      with None old Cons.prems show ?thesis unfolding x by simp
    next
      case DefaultDictOfSet
      let ?new = "({} - flow_out f) \<union> flow_in f"
      let ?st1 = "store_set_item st a part {}"
      let ?st2 = "store_set_item ?st1 a part ?new"
      from Cons.prems(2) None DefaultDictOfSet have r: "store_apply_flows ?st2 a rest = (res, st')"
        unfolding x by (simp add: Let_def)
      note wf1 = store_set_item_refines[OF Cons.prems(1), of part "{}"]
      note wf2 = store_set_item_refines[OF wf1(1), of part ?new]
      have c2: "dict_class ?st2 (parts_ref a) = DefaultDictOfSet"
        using DefaultDictOfSet by (simp add: store_set_item_frame)
      have sp2: "store_parts ?st2 a = AList.update part ?new (AList.update part {} (store_parts st a))"
        using wf1(2) wf2(2) by simp
      from Cons.IH[OF wf2(1) r] show ?thesis unfolding x c2 sp2
        using old DefaultDictOfSet by (simp add: Let_def)
    qed
  next
    case (Some r)
    let ?new = "(frozensets st r - flow_out f) \<union> flow_in f"
    let ?st1 = "store_set_item st a part ?new"
    from Cons.prems(2) Some have r: "store_apply_flows ?st1 a rest = (res, st')" unfolding x by simp
    note wf1 = store_set_item_refines[OF Cons.prems(1), of part ?new]
    have c1: "dict_class ?st1 (parts_ref a) = dict_class st (parts_ref a)"
      by (simp add: store_set_item_frame)
    have old: "map_of (store_parts st a) part = Some (frozensets st r)"
      using Some by (simp add: store_parts_def map_of_map_values)
    from Cons.IH[OF wf1(1) r] show ?thesis unfolding x c1 wf1(2) using old by simp
  qed
qed

lemma store_update_refines:
  assumes "store_wf st a" and "store_update st a D = (res, st')"
  shows "case update (store_assignment st a) D of
           Inl e \<Rightarrow> res = Some e
         | Inr a' \<Rightarrow> res = None \<and> store_assignment st' a = a'"
proof (cases "flows_from_changes (store_assignment st a) D")
  case (Inl e)
  with assms(2) show ?thesis by (simp add: store_update_def update_def)
next
  case (Inr fws)
  with assms(2) have sa: "store_apply_flows st a fws = (res, st')" by (simp add: store_update_def)
  from store_apply_flows_frame[OF sa] have "dict_class st' = dict_class st" by simp
  with store_apply_flows_refines[OF assms(1) sa] Inr show ?thesis
    by (auto simp: update_def store_assignment_def split: sum.splits)
qed

lemma store_update_frame:
  assumes "store_update st a D = (res, st')"
  shows "lim st \<le> lim st'" and "r < lim st \<Longrightarrow> frozensets st' r = frozensets st r"
    and "d \<noteq> parts_ref a \<Longrightarrow> dicts st' d = dicts st d" and "dict_class st' = dict_class st"
proof -
  have "lim st \<le> lim st' \<and> (\<forall>r < lim st. frozensets st' r = frozensets st r) \<and>
     (\<forall>d. d \<noteq> parts_ref a \<longrightarrow> dicts st' d = dicts st d) \<and> dict_class st' = dict_class st"
  proof (cases "flows_from_changes (store_assignment st a) D")
    case (Inl e)
    with assms show ?thesis by (simp add: store_update_def)
  next
    case (Inr fws)
    with assms have "store_apply_flows st a fws = (res, st')" by (simp add: store_update_def)
    from store_apply_flows_frame[OF this] show ?thesis .
  qed
  then show "lim st \<le> lim st'" and "r < lim st \<Longrightarrow> frozensets st' r = frozensets st r"
    and "d \<noteq> parts_ref a \<Longrightarrow> dicts st' d = dicts st d" and "dict_class st' = dict_class st"
    by simp_all
qed

lemma store_copy_props:
  assumes "store_copy st a = (c, st1)" and "store_wf st a"
  shows "parts_ref c = lim st" and "store_wf st1 c" and "store_parts st1 c = store_parts st a"
    and "frozensets st1 = frozensets st" and "dicts st1 (parts_ref a) = dicts st (parts_ref a)"
    and "lim st1 = lim st + 1"
    and "dict_class st1 (parts_ref c) = dict_class st (parts_ref a)"
    and "dict_class st1 (parts_ref a) = dict_class st (parts_ref a)"
proof -
  from assms(1) have c: "c = AssignmentRef (lim st)"
    and st1: "st1 = st\<lparr>dicts := (dicts st)(lim st := dicts st (parts_ref a)),
                        dict_class := (dict_class st)(lim st := dict_class st (parts_ref a)),
                        lim := lim st + 1\<rparr>"
    by (simp_all add: store_copy_def)
  from assms(2) have pa: "parts_ref a < lim st" and lt: "list_all (\<lambda>(part, r). r < lim st) (dicts st (parts_ref a))"
    by (simp_all add: store_wf_def)
  show "parts_ref c = lim st" using c by simp
  have "list_all (\<lambda>(part, r). r < lim st + 1) (dicts st (parts_ref a))"
    using lt by (auto simp: list_all_iff)
  then show "store_wf st1 c" using c st1 by (simp add: store_wf_def)
  show "store_parts st1 c = store_parts st a" using c st1 by (simp add: store_parts_def)
  show "frozensets st1 = frozensets st" using st1 by simp
  show "dicts st1 (parts_ref a) = dicts st (parts_ref a)" using st1 pa by simp
  show "lim st1 = lim st + 1" using st1 by simp
  show "dict_class st1 (parts_ref c) = dict_class st (parts_ref a)" using c st1 by simp
  show "dict_class st1 (parts_ref a) = dict_class st (parts_ref a)" using st1 pa by simp
qed

section \<open>A delta that names a new part\<close>

text \<open>
  C10, as the code has it. Let the \<^verbatim>\<open>parts\<close> of an Assignment be a plain dict, as
  \<^verbatim>\<open>from_dict\<close> builds it. When a delta assigns some node to a part label that is not a
  key of \<^verbatim>\<open>parts\<close>, \<^verbatim>\<open>Assignment.update\<close> raises a \<^verbatim>\<open>KeyError\<close>, and so do \<^verbatim>\<open>_from_parent\<close>
  and, for a parent with at least one part (one that passes the test \<^verbatim>\<open>if parent:\<close>),
  \<^verbatim>\<open>merge\<close>. When every node of the delta is in some part, the error is raised by the
  read of \<^verbatim>\<open>self.parts[part]\<close> and carries a label of the delta that is not a key;
  otherwise it is raised by the lookup of a node of the delta that is in no part, and
  carries that node.
\<close>

theorem update_new_part_KeyError:
  assumes "(node, part) \<in> set D" and "part \<notin> keys (parts a)" and "parts_class a = PlainDict"
    and "assignment (state P) = a"
  shows "\<exists>e. is_KeyError e \<and> update a D = Inl e \<and> from_parent cef P (Some D) = Inl e \<and>
           (Partition_len P \<noteq> 0 \<longrightarrow> merge cef P D = Inl e) \<and>
           ((\<forall>n \<in> fst ` set D. \<exists>p. Assignment_getitem a n = Inr p) \<longrightarrow>
              (\<exists>q \<in> snd ` set D. q \<notin> keys (parts a) \<and> e = KeyError_part q)) \<and>
           (\<not> (\<forall>n \<in> fst ` set D. \<exists>p. Assignment_getitem a n = Inr p) \<longrightarrow>
              (\<exists>n \<in> fst ` set D. Assignment_getitem a n = Inl (KeyError_node n) \<and> e = KeyError_node n))"
proof (cases "update a D")
  case (Inr a')
  from update_Inr_keys[OF Inr assms(1,3)] assms(2) show ?thesis by simp
next
  case (Inl e)
  have fp: "from_parent cef P (Some D) = Inl e"
    using Inl assms(4) by (simp add: from_parent_def copy_def)
  have mg: "Partition_len P \<noteq> 0 \<longrightarrow> merge cef P D = Inl e"
    using fp by (simp add: merge_def Partition_init_def truthy_def)
  note c = update_Inl[OF Inl]
  have ke: "is_KeyError e" using c by auto
  have p1: "(\<forall>n \<in> fst ` set D. \<exists>p. Assignment_getitem a n = Inr p) \<longrightarrow>
              (\<exists>q \<in> snd ` set D. q \<notin> keys (parts a) \<and> e = KeyError_part q)"
    using c by auto
  have p2: "\<not> (\<forall>n \<in> fst ` set D. \<exists>p. Assignment_getitem a n = Inr p) \<longrightarrow>
              (\<exists>n \<in> fst ` set D. Assignment_getitem a n = Inl (KeyError_node n) \<and> e = KeyError_node n)"
    using c by blast
  from Inl fp mg ke p1 p2 show ?thesis by blast
qed

text \<open>In the scenario, the delta \<^verbatim>\<open>{2: "C"}\<close> names the new part C, and the delta
  \<^verbatim>\<open>{5: "C"}\<close> also a node that is in no part.\<close>

theorem update_new_part_KeyError_witness:
  "merge no_edge_flows scenario_root [(2, ''C'')] = Inl (KeyError_part ''C'') \<and>
   update (Assignment [(''A'', {2, 1}), (''B'', {4, 3})] PlainDict) [(2::int, ''C'')] = Inl (KeyError_part ''C'') \<and>
   update (Assignment [(''A'', {2, 1}), (''B'', {4, 3})] PlainDict) [(5::int, ''C'')] = Inl (KeyError_node 5)"
  using update_new_part_KeyError[of 2 "''C''" "[(2, ''C'')]" "Assignment [(''A'', {2, 1}), (''B'', {4, 3})] PlainDict"
     scenario_root no_edge_flows]
    update_new_part_KeyError[of 5 "''C''" "[(5, ''C'')]" "Assignment [(''A'', {2, 1}), (''B'', {4, 3})] PlainDict"
     scenario_root no_edge_flows]
  by (simp add: scenario_root_def keys_def Partition_len_def Assignment_getitem_def)

text \<open>Against a \<^verbatim>\<open>KeyError\<close> for every Assignment and every parent. \<^verbatim>\<open>Assignment.__init__\<close>
  stores the mapping it is given: over \<^verbatim>\<open>level_sets({1: A, 2: A, 3: B, 4: B})\<close>, a
  \<^verbatim>\<open>defaultdict(set)\<close>, the read of the missing part C inserts an empty set, and
  \<^verbatim>\<open>update({2: C})\<close> returns with the new part C. And the root over the empty dict has
  length zero, so that \<^verbatim>\<open>merge\<close> takes the root path with every argument \<^verbatim>\<open>None\<close> and
  raises the \<^verbatim>\<open>TypeError\<close> of \<^verbatim>\<open>get_assignment\<close>, for a delta that names the new part A.\<close>

theorem new_part_without_KeyError:
  "update (Assignment [(''A'', {2, 1}), (''B'', {4, 3})] DefaultDictOfSet) [(2::int, ''C'')] =
     Inr (Assignment [(''A'', {1}), (''B'', {4, 3}), (''C'', {2})] DefaultDictOfSet) \<and>
   Partition_init no_edge_flows (Some empty_graph) (Dict []) None None None = Inr empty_root \<and>
   parts (assignment (state empty_root)) = [] \<and>
   merge no_edge_flows empty_root [(1, ''A'')] =
     Inl (TypeError ''Assignment must be a dict or a node attribute key'')"
proof -
  have "update (Assignment [(''A'', {2, 1}), (''B'', {4, 3})] DefaultDictOfSet) [(2::int, ''C'')] =
     Inr (Assignment [(''A'', {1}), (''B'', {4, 3}), (''C'', {2})] DefaultDictOfSet)"
    by (auto simp add: update_def flows_from_changes_def Assignment_getitem_def defaultdict_get_def create_flow_def Let_def)
  moreover have "Partition_init no_edge_flows (Some empty_graph) (Dict []) None None None = Inr empty_root"
    by (simp add: Partition_init_def truthy_def first_time_def get_assignment_def from_dict_def level_sets_def
      items_def Partition_update_def default_updaters_def dict_update_def set_cache_def set_parts_def empty_root_def)
  moreover have "merge no_edge_flows empty_root [(1, ''A'')] =
     Inl (TypeError ''Assignment must be a dict or a node attribute key'')"
    by (simp add: merge_def Partition_init_def truthy_def Partition_len_def empty_root_def first_time_def
      get_assignment_def)
  ultimately show ?thesis by (simp add: empty_root_def)
qed

section \<open>Claims about construction, the cache and the scenarios\<close>

text \<open>
  C9. A root construction (no parent) whose \<^verbatim>\<open>assignment\<close> argument is neither a string, a
  dict nor an Assignment, \<^verbatim>\<open>None\<close> included, raises the \<^verbatim>\<open>TypeError\<close> of \<^verbatim>\<open>get_assignment\<close>:
  \<^verbatim>\<open>_first_time\<close> and the constructor return the error and no Partition.
\<close>

theorem invalid_assignment_TypeError:
  "get_assignment (Other x) g = Inl (TypeError ''Assignment must be a dict or a node attribute key'') \<and>
   first_time g (Other x) ups = Inl (TypeError ''Assignment must be a dict or a node attribute key'') \<and>
   Partition_init cef g (Other x) ups None fl = Inl (TypeError ''Assignment must be a dict or a node attribute key'')"
  by (simp add: get_assignment_def first_time_def Partition_init_def truthy_def)

text \<open>
  C5. When the constructor returns, for a root as for a child, the keys of the cache are
  exactly the names of the updater registry: every registered name has its entry.
\<close>

theorem cache_fully_populated:
  assumes "Partition_init cef g a u par fl = Inr P"
  shows "keys (cache (state P)) = keys (updaters P)"
  using assms by (rule Partition_init_cache_keys)

text \<open>The root of the scenario with the updater \<open>assignment_size\<close> registered as "size".\<close>

theorem cache_fully_populated_witness:
  "keys (cache (state assignment_size_root)) = keys (updaters assignment_size_root) \<and>
   keys (cache (state assignment_size_root)) = {''size''}"
  using cache_fully_populated[OF assignment_size_root_init[of no_edge_flows]]
  by (simp add: assignment_size_root_def keys_def)

text \<open>
  C4, as the code has it. Let the updaters of an instance not depend on the content of
  \<^verbatim>\<open>_cache\<close> and have no handler around their lookups: each reads the attributes of the
  instance, looks up other entries with \<^verbatim>\<open>partition[name]\<close> and lets an exception of a
  lookup pass. When \<^verbatim>\<open>_update\<close>, which the constructor runs on both paths, returns on the
  instance \<open>s\<close> that \<^verbatim>\<open>_first_time\<close> or \<^verbatim>\<open>_from_parent\<close> has built, every registered updater
  has been called exactly once, also one that another updater has looked up before the
  loop reached it; and every lookup of a registered name afterwards (on the instance
  \<open>s'\<close>, which is \<open>s\<close> or, for a root, \<open>s\<close> with the tuple of labels as \<^verbatim>\<open>parts\<close>) returns
  the entry of the cache and leaves the cache and the log of calls as they are: the
  updater is not called again.
\<close>

theorem reentrant_updater_invoked_once:
  assumes "cache_independent ups s" and "without_handlers ups s"
    and "Partition_update_reentrant depth ups s = Inr st"
    and "name \<in> keys ups"
  shows "count_list (memo_invocations st) name = 1 \<and>
         (\<exists>v. map_of (memo_cache st) name = Some v \<and>
              Partition_getitem_reentrant (Suc depth') ups s' name st = (Inr v, st))"
proof -
  note r = Partition_update_reentrant_ok[OF assms(1,2,3)]
  have c: "count_list (memo_invocations st) name = 1"
    using r(1,2) assms(4) by (simp add: count_list_distinct)
  have "name \<in> keys (memo_cache st)" using r(3) assms(4) by simp
  then obtain v where v: "map_of (memo_cache st) name = Some v" by (auto simp: map_of_keys')
  then have "Partition_getitem_reentrant (Suc depth') ups s' name st = (Inr v, st)" by simp
  with c v show ?thesis by blast
qed

text \<open>On the root of the scenario with \<open>dependent_updaters\<close>: the call of "total" looks
  up "count", whose updater is called then and not again when the loop reaches it.\<close>

theorem reentrant_updater_invoked_once_witness:
  "Partition_update_reentrant 5 dependent_updaters scenario_instance =
     Inr \<lparr>memo_cache = [(''count'', 2), (''total'', 3)], memo_invocations = [''total'', ''count'']\<rparr> \<and>
   count_list [''total'', ''count''] ''count'' = 1 \<and>
   Partition_getitem_reentrant (Suc 0) dependent_updaters scenario_instance ''count''
       \<lparr>memo_cache = [(''count'', 2), (''total'', 3)], memo_invocations = [''total'', ''count'']\<rparr> =
     (Inr 2, \<lparr>memo_cache = [(''count'', 2), (''total'', 3)], memo_invocations = [''total'', ''count'']\<rparr>)"
proof -
  have ci: "cache_independent dependent_updaters scenario_instance"
    by (simp add: cache_independent_def dependent_updaters_def)
  have wh: "without_handlers dependent_updaters scenario_instance"
    by (simp add: without_handlers_def dependent_updaters_def)
  have u: "Partition_update_reentrant 5 dependent_updaters scenario_instance =
     Inr \<lparr>memo_cache = [(''count'', 2), (''total'', 3)], memo_invocations = [''total'', ''count'']\<rparr>"
    by (simp add: Partition_update_reentrant_def dependent_updaters_def call_updater_def keys_def
      getitem_then_def set_cache_def scenario_instance_def numeral_nat)
  have k: "''count'' \<in> keys dependent_updaters" by (simp add: keys_def dependent_updaters_def)
  from reentrant_updater_invoked_once[OF ci wh u k, of 0 scenario_instance] u show ?thesis by simp
qed

text \<open>Against one call for every updater. With \<open>peeking_updaters\<close> the constructor's
  \<^verbatim>\<open>_update\<close> returns, and the updater of A has been called twice: the call of A looks up
  B, which looks up C and then A; A has no entry yet, so its updater is called again,
  finds C in the cache and returns 1, and the entry of A is overwritten with 11 when the
  first call returns. With \<open>catching_updaters\<close>, the updater of R is called again by each
  of its lookups until the nesting reaches the limit; the innermost call catches the
  \<^verbatim>\<open>RecursionError\<close> and returns, and so do all calls around it: with room for two nested
  lookups these are three calls.\<close>

theorem updater_invoked_twice:
  "Partition_update_reentrant 5 peeking_updaters scenario_instance =
     Inr \<lparr>memo_cache = [(''C'', 0), (''A'', 11), (''B'', 11)],
          memo_invocations = [''A'', ''B'', ''C'', ''A'']\<rparr> \<and>
   count_list [''A'', ''B'', ''C'', ''A''] ''A'' = 2 \<and>
   Partition_update_reentrant 2 catching_updaters scenario_instance =
     Inr \<lparr>memo_cache = [(''R'', 0)], memo_invocations = [''R'', ''R'', ''R'']\<rparr> \<and>
   count_list [''R'', ''R'', ''R''] ''R'' = 3"
proof -
  have "Partition_update_reentrant 5 peeking_updaters scenario_instance =
     Inr \<lparr>memo_cache = [(''C'', 0), (''A'', 11), (''B'', 11)],
          memo_invocations = [''A'', ''B'', ''C'', ''A'']\<rparr>"
    by (simp add: Partition_update_reentrant_def peeking_updaters_def call_updater_def keys_def
      getitem_then_def set_cache_def scenario_instance_def numeral_nat)
  moreover have "Partition_update_reentrant 2 catching_updaters scenario_instance =
     Inr \<lparr>memo_cache = [(''R'', 0)], memo_invocations = [''R'', ''R'', ''R'']\<rparr>"
    by (simp add: Partition_update_reentrant_def catching_updaters_def call_updater_def keys_def
      set_cache_def scenario_instance_def numeral_nat)
  ultimately show ?thesis by simp
qed

text \<open>
  C3. The scenario with nodes 1 to 4, edges (1,2), (2,3), (3,4) and the assignment
  \<^verbatim>\<open>{1: A, 2: A, 3: B, 4: B}\<close>: on the root, only the edge (2,3) crosses parts; on every
  child that \<^verbatim>\<open>merge({2: B})\<close> returns, part A is \<open>{1}\<close>, part B is \<open>{2, 3, 4}\<close>, the edge
  (1,2) crosses parts and the edge (2,3) does not.
\<close>

theorem scenario_crosses_parts:
  assumes "merge cef scenario_root [(2, ''B'')] = Inr child"
  shows "Partition_init cef (Some scenario_graph) (Dict scenario_assignment) None None None = Inr scenario_root \<and>
         crosses_parts scenario_root (2, 3) = Inr True \<and>
         crosses_parts scenario_root (1, 2) = Inr False \<and>
         crosses_parts scenario_root (3, 4) = Inr False \<and>
         parts (assignment (state child)) = [(''A'', {1}), (''B'', {2, 3, 4})] \<and>
         crosses_parts child (1, 2) = Inr True \<and>
         crosses_parts child (2, 3) = Inr False"
proof -
  have a: "assignment (state child) = Assignment [(''A'', {1}), (''B'', {2, 3, 4})] PlainDict"
    by (rule scenario_merge_assignment[OF assms]) (simp add: scenario_root_def)
  have "crosses_parts child (1, 2) = Inr True" "crosses_parts child (2, 3) = Inr False"
    by (simp_all add: crosses_parts_def a Assignment_getitem_def)
  with a scenario_root_init scenario_root_crosses show ?thesis by simp
qed

text \<open>The child built with an edge-flow computation that returns nothing.\<close>

theorem scenario_crosses_parts_witness:
  "crosses_parts scenario_child (1, 2) = Inr True \<and>
   crosses_parts scenario_child (2, 3) = Inr False \<and>
   parts (assignment (state scenario_child)) = [(''A'', {1}), (''B'', {2, 3, 4})]"
  using scenario_crosses_parts[OF scenario_child_merge] by simp

text \<open>
  C6, as the code has it. After root construction and on every child the attribute
  \<^verbatim>\<open>parts\<close> of a Partition is the tuple of the part labels, so the sizes are computed from
  the parts of the Assignment: with \<open>assignment_size\<close> registered as "size", the child
  of \<^verbatim>\<open>merge({2: B})\<close> holds \<^verbatim>\<open>{A: 1, B: 3}\<close> in its cache, computed by one call at
  construction, and a lookup returns that entry without another call.
\<close>

theorem scenario_assignment_size:
  assumes "merge cef assignment_size_root [(2, ''B'')] = Inr child"
  shows "Partition_init cef (Some scenario_graph) (Dict scenario_assignment)
           (Some [(''size'', assignment_size)]) None None = Inr assignment_size_root \<and>
         map_of (cache (state child)) ''size'' = Some [(''A'', 1), (''B'', 3)] \<and>
         invocations child = [''size''] \<and>
         Partition_getitem child ''size'' = Inr ([(''A'', 1), (''B'', 3)], child) \<and>
         partition_parts (state child) = PartsTuple [''A'', ''B'']"
proof -
  have a: "assignment (state child) = Assignment [(''A'', {1}), (''B'', {2, 3, 4})] PlainDict"
    by (rule scenario_merge_assignment[OF assms]) (simp add: assignment_size_root_def)
  have upd: "updaters assignment_size_root = [(''size'', assignment_size)]"
    by (simp add: assignment_size_root_def)
  from merge_cache[OF assms upd] obtain s :: "(int, string, unit, (string, nat) dict) pstate" and v where
    s: "assignment_size s = Inr v" "assignment s = assignment (state child)"
    "cache (state child) = [(''size'', v)]" "invocations child = [''size'']"
    by blast
  have v: "v = [(''A'', 1), (''B'', 3)]" using s(1,2) a by (auto simp: assignment_size_def)
  have p: "partition_parts (state child) = PartsTuple [''A'', ''B'']"
    using merge_Inr_fields(4)[OF assms] by (simp add: assignment_size_root_def)
  have g: "Partition_getitem child ''size'' = Inr ([(''A'', 1), (''B'', 3)], child)"
    using s(3) v by (simp add: Partition_getitem_def)
  show ?thesis using assignment_size_root_init s(3,4) v p g by simp
qed

text \<open>The child built with an edge-flow computation that returns nothing.\<close>

theorem scenario_assignment_size_witness:
  "map_of (cache (state assignment_size_child)) ''size'' = Some [(''A'', 1), (''B'', 3)] \<and>
   Partition_getitem assignment_size_child ''size'' = Inr ([(''A'', 1), (''B'', 3)], assignment_size_child)"
  using scenario_assignment_size[OF assignment_size_child_merge] by simp

text \<open>Against sizes computed from \<^verbatim>\<open>p.parts\<close>: the updater that reads the node sets from
  \<^verbatim>\<open>p.parts\<close> computes the sizes on the root, and on the child it finds a tuple, so that
  \<^verbatim>\<open>merge\<close> raises instead of returning a Partition.\<close>

theorem parts_size_fails_on_child:
  "Partition_init no_edge_flows (Some scenario_graph) (Dict scenario_assignment) (Some [(''size'', parts_size)]) None None
     = Inr parts_size_root \<and>
   merge no_edge_flows parts_size_root [(2, ''B'')] = Inl AttributeError"
proof -
  have "merge no_edge_flows parts_size_root [(2, ''B'')] = Inl AttributeError"
    apply (simp add: merge_def Partition_init_def truthy_def Partition_len_def parts_size_root_def from_parent_def copy_def
     update_scenario)
    apply (simp add: flows_from_changes_def Assignment_getitem_def defaultdict_get_def create_flow_def Let_def no_edge_flows_def
     Partition_update_def set_cache_def set_edge_flows_def keys_def parts_size_def)
    done
  then show ?thesis using parts_size_root_init by simp
qed

section \<open>Claims about the Assignment of a merged Partition\<close>

text \<open>
  C2. A root is built from a dict that maps every node of the graph to a part, and any
  list of deltas (dicts) is merged, one after the other. If every merge returns a
  Partition, then in the last one every node of the graph is in the node set of
  exactly one entry of the Assignment's \<^verbatim>\<open>parts\<close>, whose keys are distinct, and the graph is
  still the root's. (A delta that names a node outside the parts or a part that is not
  a key makes its merge raise, by \<open>update_Inl\<close>.)
\<close>

theorem partition_invariant:
  assumes "is_dict m" and "set (nodes g) \<subseteq> fst ` set m"
    and "Partition_init cef (Some g) (Dict m) u None None = Inr P0"
    and "merge_chain cef P0 ds = Inr P"
    and "\<forall>d \<in> set ds. is_dict d"
  shows "graph (state P) = Some g \<and> is_dict (parts (assignment (state P))) \<and>
         (\<forall>n \<in> set (nodes g). length (containing_parts (parts (assignment (state P))) n) = 1)"
proof -
  note rf = root_fields[OF assms(3)]
  have d0: "disjoint_parts (parts (assignment (state P0)))" using rf(1) from_dict_disjoint[OF assms(1)] by simp
  have c0: "set (nodes g) \<subseteq> \<Union> (snd ` set (parts (assignment (state P0))))"
    unfolding rf(1) from_dict_union by (rule assms(2))
  have "partition_ok P0 (set (nodes g)) (Some g)" using d0 c0 rf(2) unfolding partition_ok_def by simp
  from merge_chain_partition_ok[OF assms(4,5) this]
  have d: "disjoint_parts (parts (assignment (state P)))"
    and c: "set (nodes g) \<subseteq> \<Union> (snd ` set (parts (assignment (state P))))"
    and g: "graph (state P) = Some g" unfolding partition_ok_def by simp_all
  have "\<forall>n \<in> set (nodes g). length (containing_parts (parts (assignment (state P))) n) = 1"
  proof
    fix n assume "n \<in> set (nodes g)"
    then have "n \<in> \<Union> (snd ` set (parts (assignment (state P))))" using c by (rule subsetD[rotated])
    then show "length (containing_parts (parts (assignment (state P))) n) = 1"
      using containing_parts_length[OF d, of n] by simp
  qed
  with d g show ?thesis by (simp add: disjoint_parts_def)
qed

text \<open>The child of the scenario: each of the nodes 1 to 4 is in exactly one part.\<close>

theorem partition_invariant_witness:
  "length (containing_parts (parts (assignment (state scenario_child))) 1) = 1 \<and>
   length (containing_parts (parts (assignment (state scenario_child))) 2) = 1 \<and>
   length (containing_parts (parts (assignment (state scenario_child))) 3) = 1 \<and>
   length (containing_parts (parts (assignment (state scenario_child))) 4) = 1"
proof -
  have d: "is_dict scenario_assignment" by (simp add: is_dict_def scenario_assignment_def)
  have t: "set (nodes scenario_graph) \<subseteq> fst ` set scenario_assignment"
    by (simp add: scenario_graph_def scenario_assignment_def)
  have c: "merge_chain no_edge_flows scenario_root [[(2, ''B'')]] = Inr scenario_child"
    by (simp add: scenario_child_merge)
  have dd: "\<forall>d \<in> set [[(2::int, ''B'')]]. is_dict d" by (simp add: is_dict_def)
  from partition_invariant[OF d t scenario_root_init c dd] show ?thesis
    by (simp add: scenario_graph_def)
qed

text \<open>
  C1, as the code has it. Let \<open>P\<close> be a Partition whose part sets are pairwise disjoint,
  as they are in every root built from a dict and in every child of such a root, and \<open>D\<close>
  a delta for which \<open>merge\<close> returns the child \<open>C\<close>. For every dict \<open>full\<close> that holds the
  full resulting mapping (the mapping of \<open>P\<close>'s Assignment overridden by \<open>D\<close>), the
  Assignment of \<open>C\<close>, obtained by copy and update, and \<open>from_dict full\<close>, built from
  scratch, give every node the same part, and raise the same \<^verbatim>\<open>KeyError\<close> for a node in no
  part.
\<close>

theorem incremental_equals_rebuild:
  assumes "merge cef P D = Inr C"
    and "disjoint_parts (parts (assignment (state P)))"
    and "is_dict D"
    and "is_dict full" and "map_of full = spec_full_mapping (assignment (state P)) D"
  shows "Assignment_getitem (assignment (state C)) n = Assignment_getitem (from_dict full) n"
proof -
  let ?a = "assignment (state P)"
  note u = merge_Inr_fields(1)[OF assms(1)]
  have 1: "Assignment_getitem (assignment (state C)) n = new_part ?a D n"
    by (rule update_getitem[OF u assms(2,3)])
  have 2: "Assignment_getitem (from_dict full) n =
      (case map_of full n of Some p \<Rightarrow> Inr p | None \<Rightarrow> Inl (KeyError_node n))"
    by (rule from_dict_getitem[OF assms(4)])
  have 3: "map_of full n = (case map_of D n of Some t \<Rightarrow> Some t | None \<Rightarrow> assignment_mapping ?a n)"
    unfolding assms(5) spec_full_mapping_def map_add_def by (simp split: option.splits)
  show ?thesis
  proof (cases "map_of D n")
    case (Some t)
    then show ?thesis unfolding 1 2 3 by (simp add: new_part_def)
  next
    case None
    show ?thesis
    proof (cases "Assignment_getitem ?a n")
      case (Inl e)
      then show ?thesis unfolding 1 2 3 using None getitem_Inl[OF Inl]
        by (simp add: new_part_def assignment_mapping_def)
    next
      case (Inr p)
      then show ?thesis unfolding 1 2 3 using None
        by (simp add: new_part_def assignment_mapping_def)
    qed
  qed
qed

text \<open>In the scenario the full mapping after \<^verbatim>\<open>{2: B}\<close> is \<^verbatim>\<open>{1: A, 2: B, 3: B, 4: B}\<close>.\<close>

theorem incremental_equals_rebuild_witness:
  "\<forall>n. Assignment_getitem (assignment (state scenario_child)) n =
        Assignment_getitem (from_dict [(1, ''A''), (2, ''B''), (3, ''B''), (4, ''B'')]) n"
proof
  fix n :: int
  have a: "assignment (state scenario_root) = Assignment [(''A'', {2, 1}), (''B'', {4, 3})] PlainDict"
    by (simp add: scenario_root_def)
  have g: "\<And>k. assignment_mapping (Assignment [(''A'', {2, 1}), (''B'', {4, 3})] PlainDict) k =
      (if k = 2 \<or> k = (1::int) then Some ''A'' else if k = 4 \<or> k = 3 then Some ''B'' else None)"
    by (simp add: assignment_mapping_def Assignment_getitem_def)
  have f: "map_of [(1, ''A''), (2, ''B''), (3, ''B''), (4, ''B'')] =
        spec_full_mapping (assignment (state scenario_root)) [(2, ''B'')]"
    unfolding a spec_full_mapping_def fun_eq_iff map_add_def g by simp
  have d: "disjoint_parts (parts (assignment (state scenario_root)))"
    unfolding a by (simp add: is_dict_def disjoint_parts_def)
  have dD: "is_dict [(2::int, ''B'')]" by (simp add: is_dict_def)
  have df: "is_dict [(1::int, ''A''), (2, ''B''), (3, ''B''), (4, ''B'')]" by (simp add: is_dict_def)
  show "Assignment_getitem (assignment (state scenario_child)) n =
        Assignment_getitem (from_dict [(1, ''A''), (2, ''B''), (3, ''B''), (4, ''B'')]) n"
    by (rule incremental_equals_rebuild[OF scenario_child_merge d dD df f])
qed

text \<open>Against the equivalence for every Partition and every delta. On the root built from
  the Assignment object with the parts \<^verbatim>\<open>A = {1}\<close>, \<^verbatim>\<open>B = {1}\<close> and \<^verbatim>\<open>C = {2}\<close>, the delta
  \<^verbatim>\<open>{1: C}\<close> takes node 1 out of A only: the child gives node 1 the part B, and the
  Assignment built from the full mapping \<^verbatim>\<open>{1: C, 2: C}\<close> gives it the part C. And on the
  root of the scenario the delta \<^verbatim>\<open>{2: C}\<close> names a new part: \<^verbatim>\<open>merge\<close> raises, there is no
  child, and the Assignment built from the full mapping gives node 2 the part C.\<close>

theorem incremental_differs_from_rebuild:
  "Partition_init no_edge_flows (Some overlap_graph) (AssignmentObj overlap_assignment) None None None =
     Inr overlap_root \<and>
   merge no_edge_flows overlap_root [(1, ''C'')] = Inr overlap_child \<and>
   Assignment_getitem (assignment (state overlap_child)) 1 = Inr ''B'' \<and>
   map_of [(1, ''C''), (2, ''C'')] = spec_full_mapping (assignment (state overlap_root)) [(1, ''C'')] \<and>
   Assignment_getitem (from_dict [(1::int, ''C''), (2, ''C'')]) 1 = Inr ''C'' \<and>
   merge no_edge_flows scenario_root [(2, ''C'')] = Inl (KeyError_part ''C'') \<and>
   map_of [(1, ''A''), (2, ''C''), (3, ''B''), (4, ''B'')] =
     spec_full_mapping (assignment (state scenario_root)) [(2, ''C'')] \<and>
   Assignment_getitem (from_dict [(1::int, ''A''), (2, ''C''), (3, ''B''), (4, ''B'')]) 2 = Inr ''C''"
proof -
  have g1: "\<And>k. assignment_mapping (Assignment [(''A'', {1}), (''B'', {1}), (''C'', {2})] PlainDict) k =
      (if k = (1::int) then Some ''A'' else if k = 2 then Some ''C'' else None)"
    by (simp add: assignment_mapping_def Assignment_getitem_def)
  have f1: "map_of [(1, ''C''), (2, ''C'')] = spec_full_mapping (assignment (state overlap_root)) [(1, ''C'')]"
    unfolding overlap_root_def overlap_assignment_def spec_full_mapping_def fun_eq_iff map_add_def
    by (simp add: g1)
  have g2: "\<And>k. assignment_mapping (Assignment [(''A'', {2, 1}), (''B'', {4, 3})] PlainDict) k =
      (if k = 2 \<or> k = (1::int) then Some ''A'' else if k = 4 \<or> k = 3 then Some ''B'' else None)"
    by (simp add: assignment_mapping_def Assignment_getitem_def)
  have f2: "map_of [(1, ''A''), (2, ''C''), (3, ''B''), (4, ''B'')] =
     spec_full_mapping (assignment (state scenario_root)) [(2, ''C'')]"
    unfolding scenario_root_def spec_full_mapping_def fun_eq_iff map_add_def
    by (simp add: g2)
  have c: "Assignment_getitem (assignment (state overlap_child)) 1 = Inr ''B''"
    by (simp add: overlap_child_def Assignment_getitem_def)
  have r1: "Assignment_getitem (from_dict [(1::int, ''C''), (2, ''C'')]) 1 = Inr ''C''"
    by (simp add: from_dict_def level_sets_def defaultdict_get_def Assignment_getitem_def)
  have r2: "Assignment_getitem (from_dict [(1::int, ''A''), (2, ''C''), (3, ''B''), (4, ''B'')]) 2 = Inr ''C''"
    by (simp add: from_dict_def level_sets_def defaultdict_get_def Assignment_getitem_def)
  show ?thesis
    using overlap_root_init overlap_child_merge c f1 r1 scenario_new_part_merge f2 r2 by simp
qed

section \<open>The parent of a merge\<close>

text \<open>
  C8. Building the child's Assignment from the parent's (copy, then update with the delta)
  leaves the parent as it was, whether the update returns or raises: the parent's
  \<^verbatim>\<open>parts\<close> dict holds the same entries, that is the same set objects, no set object that
  existed before has changed its contents, and so the parent's Assignment has the same
  value and gives every node the same part. The child's dict is another object, and the
  child's Assignment is the one \<open>update\<close> computes on the copy.
\<close>

theorem merge_leaves_parent_unchanged:
  assumes "store_wf st parent_assignment"
    and "store_from_parent st parent_assignment D = (self_assignment, res, st')"
  shows "dicts st' (parts_ref parent_assignment) = dicts st (parts_ref parent_assignment) \<and>
         (\<forall>r < lim st. frozensets st' r = frozensets st r) \<and>
         store_assignment st' parent_assignment = store_assignment st parent_assignment \<and>
         parts_ref self_assignment \<noteq> parts_ref parent_assignment \<and>
         (case update (copy (store_assignment st parent_assignment)) D of
            Inl e \<Rightarrow> res = Some e
          | Inr a' \<Rightarrow> res = None \<and> store_assignment st' self_assignment = a')"
proof -
  obtain c st1 where cp: "store_copy st parent_assignment = (c, st1)" by (cases "store_copy st parent_assignment")
  obtain r st2 where up: "store_update st1 c D = (r, st2)" by (cases "store_update st1 c D")
  from assms(2) cp up have eq: "self_assignment = c" "res = r" "st' = st2"
    by (simp_all add: store_from_parent_def)
  note cpp = store_copy_props[OF cp assms(1)]
  from assms(1) have pa: "parts_ref parent_assignment < lim st"
    and lt: "list_all (\<lambda>(part, r). r < lim st) (dicts st (parts_ref parent_assignment))"
    by (simp_all add: store_wf_def)
  have ne: "parts_ref parent_assignment \<noteq> parts_ref c" using cpp(1) pa by simp
  have d: "dicts st2 (parts_ref parent_assignment) = dicts st (parts_ref parent_assignment)"
    using store_update_frame(3)[OF up ne] cpp(5) by simp
  have f: "\<forall>r < lim st. frozensets st2 r = frozensets st r"
    using store_update_frame(2)[OF up] cpp(4,6) by simp
  have "map (\<lambda>(part, r). (part, frozensets st2 r)) (dicts st (parts_ref parent_assignment)) =
        map (\<lambda>(part, r). (part, frozensets st r)) (dicts st (parts_ref parent_assignment))"
    using lt f by (auto simp: list_all_iff)
  then have a: "store_assignment st2 parent_assignment = store_assignment st parent_assignment"
    using d store_update_frame(4)[OF up] cpp(8)
    by (simp add: store_assignment_def store_parts_def)
  have sa: "store_assignment st1 c = copy (store_assignment st parent_assignment)"
    using cpp(3,7) by (simp add: store_assignment_def copy_def)
  have rf: "case update (copy (store_assignment st parent_assignment)) D of
            Inl e \<Rightarrow> r = Some e
          | Inr a' \<Rightarrow> r = None \<and> store_assignment st2 c = a'"
    using store_update_refines[OF cpp(2) up] sa by simp
  show ?thesis unfolding eq using d f a ne rf by simp
qed

text \<open>The root Assignment of the scenario and the delta \<^verbatim>\<open>{2: B}\<close>.\<close>

theorem merge_leaves_parent_unchanged_witness:
  "store_assignment (snd (snd (store_from_parent scenario_store (AssignmentRef 2) [(2, ''B'')]))) (AssignmentRef 2) =
     Assignment [(''A'', {2, 1}), (''B'', {4, 3})] PlainDict \<and>
   dicts (snd (snd (store_from_parent scenario_store (AssignmentRef 2) [(2, ''B'')]))) 2 = [(''A'', 0), (''B'', 1)] \<and>
   fst (snd (store_from_parent scenario_store (AssignmentRef 2) [(2, ''B'')])) = None \<and>
   store_assignment (snd (snd (store_from_parent scenario_store (AssignmentRef 2) [(2, ''B'')])))
     (fst (store_from_parent scenario_store (AssignmentRef 2) [(2, ''B'')])) =
     Assignment [(''A'', {1}), (''B'', {2, 3, 4})] PlainDict"
proof -
  have wf: "store_wf scenario_store (AssignmentRef 2)" by (simp add: store_wf_def scenario_store_def)
  have e: "store_from_parent scenario_store (AssignmentRef 2) [(2, ''B'')] =
      (fst (store_from_parent scenario_store (AssignmentRef 2) [(2, ''B'')]),
       fst (snd (store_from_parent scenario_store (AssignmentRef 2) [(2, ''B'')])),
       snd (snd (store_from_parent scenario_store (AssignmentRef 2) [(2, ''B'')])))" by simp
  have a: "store_assignment scenario_store (AssignmentRef 2) = Assignment [(''A'', {2, 1}), (''B'', {4, 3})] PlainDict"
    by (simp add: store_assignment_def store_parts_def scenario_store_def)
  have d: "dicts scenario_store 2 = [(''A'', 0), (''B'', 1)]" by (simp add: scenario_store_def)
  from merge_leaves_parent_unchanged[OF wf e] show ?thesis
    by (simp add: a d copy_def update_scenario)
qed

end
